theory Spec2Isabelle
  imports Complex_Main
begin

chapter \<open>The statistics aggregation of github-stats\<close>

text \<open>
  A shallow embedding of \<^verbatim>\<open>calculateTimeMetrics\<close> and \<^verbatim>\<open>calculateStats\<close> (the module
  imported as \<^verbatim>\<open>./stats\<close>) and of \<^verbatim>\<open>isBot\<close> (\<^verbatim>\<open>./utils\<close>), over the records of
  \<^verbatim>\<open>types.ts\<close>, followed by the properties proved of them. Timestamps and durations are
  integers (milliseconds); a sum divided by a count and a participation rate are
  rationals, so the arithmetic is exact where the program's is in floating point.
\<close>

section \<open>Helpers: JavaScript arrays, sets and maps\<close>

text \<open>
  \<^verbatim>\<open>Array.prototype.sort(cmp)\<close> is a stable sort (ECMAScript 2019); it is modelled as the
  stable insertion sort driven by the comparator \<open>cmp\<close>, whose sign decides the order as
  in the source (\<open>cmp a b \<le> 0\<close>: \<open>a\<close> stays before \<open>b\<close>).
\<close>

fun insertBy :: "('a \<Rightarrow> 'a \<Rightarrow> int) \<Rightarrow> 'a \<Rightarrow> 'a list \<Rightarrow> 'a list" where
  "insertBy cmp x [] = [x]"
| "insertBy cmp x (y # ys) = (if cmp x y \<le> 0 then x # y # ys else y # insertBy cmp x ys)"

definition sortBy :: "('a \<Rightarrow> 'a \<Rightarrow> int) \<Rightarrow> 'a list \<Rightarrow> 'a list" where
  "sortBy cmp xs = foldr (insertBy cmp) xs []"

text \<open>
  A \<^verbatim>\<open>Set\<close> keeps its elements in insertion order without duplicates: a list to
  which \<open>setAdd\<close> appends only what is not there yet. \<open>setOf\<close> is \<^verbatim>\<open>new Set(array)\<close>.
\<close>

definition setHas :: "'a \<Rightarrow> 'a list \<Rightarrow> bool" where
  "setHas x s = (x \<in> set s)"

definition setAdd :: "'a \<Rightarrow> 'a list \<Rightarrow> 'a list" where
  "setAdd x s = (if setHas x s then s else s @ [x])"

definition setOf :: "'a list \<Rightarrow> 'a list" where
  "setOf xs = fold setAdd xs []"

text \<open>
  A \<^verbatim>\<open>Map\<close> is the list of its entries in insertion order. \<open>mapSet\<close> overwrites the
  value of a key that is present, in place, and appends a new key; \<open>mapModify\<close> stands
  for mutating the object that \<^verbatim>\<open>get\<close> returned; \<open>getOrEmpty\<close> is
  \<^verbatim>\<open>map.get(k) || []\<close>.
\<close>

definition mapGet :: "('k \<times> 'v) list \<Rightarrow> 'k \<Rightarrow> 'v option" where
  "mapGet m k = map_of m k"

definition mapHas :: "'k \<Rightarrow> ('k \<times> 'v) list \<Rightarrow> bool" where
  "mapHas k m = (mapGet m k \<noteq> None)"

fun mapSet :: "'k \<Rightarrow> 'v \<Rightarrow> ('k \<times> 'v) list \<Rightarrow> ('k \<times> 'v) list" where
  "mapSet k v [] = [(k, v)]"
| "mapSet k v (e # m) = (if fst e = k then (k, v) # m else e # mapSet k v m)"

definition mapModify :: "'k \<Rightarrow> ('v \<Rightarrow> 'v) \<Rightarrow> ('k \<times> 'v) list \<Rightarrow> ('k \<times> 'v) list" where
  "mapModify k f m = map (\<lambda>e. if fst e = k then (fst e, f (snd e)) else e) m"

definition getOrEmpty :: "('k \<times> 'v list) list \<Rightarrow> 'k \<Rightarrow> 'v list" where
  "getOrEmpty m k = (case mapGet m k of None \<Rightarrow> [] | Some l \<Rightarrow> l)"

text \<open>
  Grouping, as both grouping loops of \<^verbatim>\<open>calculateStats\<close> do it: a key seen for the
  first time gets an empty array, then the element is pushed onto the key's array.
\<close>

definition groupStep :: "('a \<Rightarrow> 'k) \<Rightarrow> 'a \<Rightarrow> ('k \<times> 'a list) list \<Rightarrow> ('k \<times> 'a list) list" where
  "groupStep key x m =
     mapModify (key x) (\<lambda>l. l @ [x]) (if \<not> mapHas (key x) m then mapSet (key x) [] m else m)"

definition groupBy :: "('a \<Rightarrow> 'k) \<Rightarrow> 'a list \<Rightarrow> ('k \<times> 'a list) list" where
  "groupBy key xs = fold (groupStep key) xs []"

section \<open>Bot filter\<close>

text \<open>
  \<^verbatim>\<open>isBot\<close> of \<^verbatim>\<open>utils.ts\<close>: the lower-cased username contains one of three
  fragments. Usernames are byte strings here and \<open>toLowerCase\<close> maps the ASCII capitals.
\<close>

definition toLowerCase :: "string \<Rightarrow> string" where
  "toLowerCase s =
     map (\<lambda>c. if 65 \<le> (of_char c :: nat) \<and> (of_char c :: nat) \<le> 90
               then char_of ((of_char c :: nat) + 32) else c) s"

fun startsWith :: "string \<Rightarrow> string \<Rightarrow> bool" where
  "startsWith s [] = True"
| "startsWith [] (p # ps) = False"
| "startsWith (c # cs) (p # ps) = (c = p \<and> startsWith cs ps)"

fun includes_str :: "string \<Rightarrow> string \<Rightarrow> bool" where
  "includes_str [] pat = startsWith [] pat"
| "includes_str (c # cs) pat = (startsWith (c # cs) pat \<or> includes_str cs pat)"

definition botPatterns :: "string list" where
  "botPatterns = [''renovate'', ''copilot'', ''dependabot'']"

definition isBot :: "string \<Rightarrow> bool" where
  "isBot username =
     (let lowercaseUsername = toLowerCase username
      in list_ex (\<lambda>pattern. includes_str lowercaseUsername pattern) botPatterns)"

section \<open>Time metrics\<close>

text \<open>
  The interface \<^verbatim>\<open>TimeMetrics\<close> of \<^verbatim>\<open>types.ts\<close>. Durations are differences of
  millisecond timestamps, hence integers; the quotients of \<^verbatim>\<open>calculateTimeMetrics\<close> are
  taken exactly, over the rationals.
\<close>

record TimeMetrics =
  tm_average :: rat
  tm_min :: rat
  tm_max :: rat
  tm_median :: rat

definition calculateTimeMetrics :: "int list \<Rightarrow> TimeMetrics option" where
  "calculateTimeMetrics durations =
     (if length durations = 0 then None
      else
        let sorted = sortBy (\<lambda>a b. a - b) durations;
            sum = fold (\<lambda>val acc. acc + val) durations 0
        in Some \<lparr>
             tm_average = of_int sum / of_nat (length durations),
             tm_min = of_int (sorted ! 0),
             tm_max = of_int (sorted ! (length sorted - 1)),
             tm_median =
               (if length sorted mod 2 = 0
                then (of_int (sorted ! (length sorted div 2 - 1))
                        + of_int (sorted ! (length sorted div 2))) / 2
                else of_int (sorted ! (length sorted div 2))) \<rparr>)"

section \<open>Data model\<close>

text \<open>
  The records of \<^verbatim>\<open>types.ts\<close>. A \<^verbatim>\<open>Date\<close> is its \<^verbatim>\<open>getTime()\<close>, an integer
  number of milliseconds; a nullable field is an option. The review status of a detail
  row is one of the three review states or one of three further values.
\<close>

datatype PRState = PR_open | PR_closed | PR_merged

datatype ReviewState = APPROVED | COMMENTED | CHANGES_REQUESTED

datatype ReviewStatus = Reviewed ReviewState | COMMENTED_ONLY | NOT_REVIEWED | OWN_PR

record PRData =
  number :: int
  title :: string
  author :: string
  createdAt :: int
  readyForReviewAt :: int
  closedAt :: "int option"
  mergedAt :: "int option"
  state :: PRState
  isDraft :: bool

record ReviewData =
  r_prNumber :: int
  reviewer :: string
  r_state :: ReviewState
  submittedAt :: int

record ReviewRequestData =
  q_prNumber :: int
  q_reviewer :: string
  requestedAt :: int

record CommentData =
  c_prNumber :: int
  commenter :: string
  c_createdAt :: int

record ReviewMetrics =
  approved :: nat
  commented :: nat
  changesRequested :: nat

record PersonPRDetail =
  prNumber :: int
  d_title :: string
  d_author :: string
  d_createdAt :: int
  d_readyForReviewAt :: int
  ageInDays :: int
  d_state :: PRState
  d_isDraft :: bool
  reviewStatus :: ReviewStatus
  firstCommentTime :: "int option"
  firstReviewTime :: "int option"
  timeOpen :: int
  reviewerCount :: nat
  url :: string

record PersonStats =
  person :: string
  prsOpened :: nat
  reviewMetrics :: ReviewMetrics
  totalReviewsGiven :: nat
  uniquePRsReviewed :: nat
  reviewParticipationRate :: rat
  eligiblePRsForReview :: int
  timeToFirstComment :: "TimeMetrics option"
  timeToFirstReview :: "TimeMetrics option"
  timeToApproval :: "TimeMetrics option"
  prDetails :: "PersonPRDetail list"

text \<open>The entry of \<^verbatim>\<open>prDetailsMap\<close> and the accumulator kept per person in \<^verbatim>\<open>personMap\<close>.\<close>

record DetailStub =
  s_reviewStatus :: ReviewStatus
  s_firstCommentTime :: "int option"
  s_firstReviewTime :: "int option"

record PersonData =
  acc_prsOpened :: nat
  reviewsApproved :: nat
  reviewsCommented :: nat
  reviewsChangesRequested :: nat
  prsReviewedSet :: "int list"
  ownPRNumbers :: "int list"
  acc_timeToFirstComment :: "int list"
  acc_timeToFirstReview :: "int list"
  acc_timeToApproval :: "int list"
  prDetailsMap :: "(int \<times> DetailStub) list"

type_synonym PersonMap = "(string \<times> PersonData) list"

text \<open>
  What \<^verbatim>\<open>calculateStats\<close> reads from its surroundings: the successive values of
  \<^verbatim>\<open>Date.now()\<close> during the call (\<open>now n\<close> is the value of the \<open>n\<close>-th read), the
  repository of \<^verbatim>\<open>config\<close>, and \<^verbatim>\<open>String.prototype.localeCompare\<close>.
\<close>

record Env =
  now :: "nat \<Rightarrow> int"
  owner :: string
  repo :: string
  localeCompare :: "string \<Rightarrow> string \<Rightarrow> int"

section \<open>The aggregation: \<^verbatim>\<open>calculateStats\<close>\<close>

definition emptyPerson :: PersonData where
  "emptyPerson = \<lparr>
     acc_prsOpened = 0, reviewsApproved = 0, reviewsCommented = 0,
     reviewsChangesRequested = 0, prsReviewedSet = [], ownPRNumbers = [],
     acc_timeToFirstComment = [], acc_timeToFirstReview = [], acc_timeToApproval = [],
     prDetailsMap = [] \<rparr>"

definition ensurePerson :: "string \<Rightarrow> PersonMap \<Rightarrow> PersonMap" where
  "ensurePerson p personMap =
     (if \<not> mapHas p personMap then mapSet p emptyPerson personMap else personMap)"

subsection \<open>Count PRs opened by each person\<close>

definition seedAuthor :: "PRData \<Rightarrow> PersonMap \<Rightarrow> PersonMap" where
  "seedAuthor pr personMap =
     (if isBot (author pr) then personMap
      else mapModify (author pr)
             (\<lambda>authorData. authorData\<lparr>
                acc_prsOpened := acc_prsOpened authorData + 1,
                ownPRNumbers := setAdd (number pr) (ownPRNumbers authorData) \<rparr>)
             (ensurePerson (author pr) personMap))"

subsection \<open>Process reviews for each PR\<close>

definition isFormal :: "ReviewData \<Rightarrow> bool" where
  "isFormal r = (r_state r = APPROVED \<or> r_state r = CHANGES_REQUESTED)"

definition countReviewType :: "ReviewData \<Rightarrow> PersonData \<Rightarrow> PersonData" where
  "countReviewType latestReview personData =
     (if r_state latestReview = APPROVED
        then personData\<lparr>reviewsApproved := reviewsApproved personData + 1\<rparr>
      else if r_state latestReview = COMMENTED
        then personData\<lparr>reviewsCommented := reviewsCommented personData + 1\<rparr>
      else if r_state latestReview = CHANGES_REQUESTED
        then personData\<lparr>reviewsChangesRequested := reviewsChangesRequested personData + 1\<rparr>
      else personData)"

text \<open>
  The body of \<^verbatim>\<open>if (reviewRequest) { ... }\<close> in the review loop: it pushes onto the three
  timing arrays and yields \<^verbatim>\<open>firstCommentTime\<close> and \<^verbatim>\<open>firstReviewTime\<close>.
\<close>

definition reviewTimes ::
  "ReviewRequestData \<Rightarrow> CommentData list \<Rightarrow> string \<Rightarrow> ReviewData list \<Rightarrow> PersonData
     \<Rightarrow> PersonData \<times> int option \<times> int option" where
  "reviewTimes reviewRequest prComments rv sortedReviews personData =
     (let requestTime = requestedAt reviewRequest;
          personComments = filter (\<lambda>c. commenter c = rv \<and> \<not> isBot (commenter c)) prComments;
          allInteractions =
            sortBy (\<lambda>a b. snd a - snd b)
              (map (\<lambda>review. (''review'', submittedAt review)) sortedReviews
                 @ map (\<lambda>comment. (''comment'', c_createdAt comment)) personComments);
          (d1, firstCommentTime) =
            (if length allInteractions > 0 then
               (let timeToFirstComment = snd (allInteractions ! 0) - requestTime
                in if timeToFirstComment \<ge> 0
                   then (personData\<lparr>acc_timeToFirstComment :=
                           acc_timeToFirstComment personData @ [timeToFirstComment]\<rparr>,
                         Some timeToFirstComment)
                   else (personData, None))
             else (personData, None));
          (d2, firstReviewTime) =
            (case find isFormal sortedReviews of
               None \<Rightarrow> (d1, None)
             | Some firstFormalReview \<Rightarrow>
                 (let timeToFirst = submittedAt firstFormalReview - requestTime
                  in if timeToFirst \<ge> 0
                     then (d1\<lparr>acc_timeToFirstReview := acc_timeToFirstReview d1 @ [timeToFirst]\<rparr>,
                           Some timeToFirst)
                     else (d1, None)));
          d3 =
            (case find isFormal sortedReviews of
               None \<Rightarrow> d2
             | Some approvalReview \<Rightarrow>
                 (let timeToApprovalValue = submittedAt approvalReview - requestTime
                  in if timeToApprovalValue \<ge> 0
                     then d2\<lparr>acc_timeToApproval := acc_timeToApproval d2 @ [timeToApprovalValue]\<rparr>
                     else d2))
      in (d3, firstCommentTime, firstReviewTime))"

text \<open>The body of the loop over \<^verbatim>\<open>reviewsByPerson.entries()\<close>, on the reviewer's accumulator.\<close>

definition reviewerStep ::
  "int \<Rightarrow> ReviewRequestData list \<Rightarrow> CommentData list \<Rightarrow> string \<Rightarrow> ReviewData list
     \<Rightarrow> PersonData \<Rightarrow> PersonData" where
  "reviewerStep prNum prReviewRequests prComments rv personReviews personData =
     (let d1 = personData\<lparr>prsReviewedSet := setAdd prNum (prsReviewedSet personData)\<rparr>;
          sortedReviews = sortBy (\<lambda>a b. submittedAt a - submittedAt b) personReviews;
          latestReview = sortedReviews ! (length sortedReviews - 1);
          d2 = countReviewType latestReview d1;
          (d3, firstCommentTime, firstReviewTime) =
            (case find (\<lambda>req. q_reviewer req = rv) prReviewRequests of
               None \<Rightarrow> (d2, None, None)
             | Some reviewRequest \<Rightarrow> reviewTimes reviewRequest prComments rv sortedReviews d2)
      in d3\<lparr>prDetailsMap :=
              mapSet prNum
                \<lparr>s_reviewStatus = Reviewed (r_state latestReview),
                 s_firstCommentTime = firstCommentTime,
                 s_firstReviewTime = firstReviewTime\<rparr>
                (prDetailsMap d3)\<rparr>)"

definition processReviews ::
  "(int \<times> ReviewRequestData list) list \<Rightarrow> (int \<times> CommentData list) list
     \<Rightarrow> int \<times> ReviewData list \<Rightarrow> PersonMap \<Rightarrow> PersonMap" where
  "processReviews reviewRequests comments entry personMap =
     (let prNum = fst entry;
          prReviews = snd entry;
          prReviewRequests = getOrEmpty reviewRequests prNum;
          prComments = getOrEmpty comments prNum;
          filteredReviews = filter (\<lambda>review. \<not> isBot (reviewer review)) prReviews;
          reviewsByPerson = groupBy reviewer filteredReviews
      in fold (\<lambda>e m. mapModify (fst e)
                        (reviewerStep prNum prReviewRequests prComments (fst e) (snd e))
                        (ensurePerson (fst e) m))
           reviewsByPerson personMap)"

subsection \<open>Process PR comments for people who didn't submit formal reviews\<close>

definition commenterStep ::
  "int \<Rightarrow> ReviewRequestData list \<Rightarrow> string \<Rightarrow> CommentData list \<Rightarrow> PersonData \<Rightarrow> PersonData" where
  "commenterStep prNum prReviewRequests cm personComments personData =
     (if \<not> mapHas prNum (prDetailsMap personData) then
        (let (d1, firstCommentTime) =
               (case find (\<lambda>req. q_reviewer req = cm) prReviewRequests of
                  None \<Rightarrow> (personData, None)
                | Some reviewRequest \<Rightarrow>
                    (if length personComments > 0 then
                       (let sortedComments =
                              sortBy (\<lambda>a b. c_createdAt a - c_createdAt b) personComments;
                            timeToFirstComment =
                              c_createdAt (sortedComments ! 0) - requestedAt reviewRequest
                        in if timeToFirstComment \<ge> 0
                           then (personData\<lparr>acc_timeToFirstComment :=
                                   acc_timeToFirstComment personData @ [timeToFirstComment]\<rparr>,
                                 Some timeToFirstComment)
                           else (personData, None))
                     else (personData, None)))
         in d1\<lparr>prDetailsMap :=
                 mapSet prNum
                   \<lparr>s_reviewStatus = COMMENTED_ONLY,
                    s_firstCommentTime = firstCommentTime,
                    s_firstReviewTime = None\<rparr>
                   (prDetailsMap d1)\<rparr>)
      else personData)"

definition processComments ::
  "(int \<times> ReviewRequestData list) list \<Rightarrow> int \<times> CommentData list \<Rightarrow> PersonMap \<Rightarrow> PersonMap" where
  "processComments reviewRequests entry personMap =
     (let prNum = fst entry;
          prComments = snd entry;
          prReviewRequests = getOrEmpty reviewRequests prNum;
          filteredComments = filter (\<lambda>c. \<not> isBot (commenter c)) prComments;
          commentsByPerson = groupBy commenter filteredComments
      in fold (\<lambda>e m. mapModify (fst e)
                        (commenterStep prNum prReviewRequests (fst e) (snd e))
                        (ensurePerson (fst e) m))
           commentsByPerson personMap)"

definition buildPersonMap ::
  "PRData list \<Rightarrow> (int \<times> ReviewData list) list \<Rightarrow> (int \<times> ReviewRequestData list) list
     \<Rightarrow> (int \<times> CommentData list) list \<Rightarrow> PersonMap" where
  "buildPersonMap prs reviews reviewRequests comments =
     fold (processComments reviewRequests) comments
       (fold (processReviews reviewRequests comments) reviews
          (fold seedAuthor prs []))"

subsection \<open>Convert map to array of PersonStats\<close>

text \<open>The decimal rendering of a PR number inside the template string of the URL.\<close>

fun showNat :: "nat \<Rightarrow> string" where
  "showNat n =
     (if n < 10 then [char_of (48 + n)]
      else showNat (n div 10) @ [char_of (48 + n mod 10)])"

definition showNumber :: "int \<Rightarrow> string" where
  "showNumber i = (if i < 0 then ''-'' @ showNat (nat (- i)) else showNat (nat i))"

text \<open>\<^verbatim>\<open>v || null\<close> on a nullable number: \<^verbatim>\<open>null\<close>, \<^verbatim>\<open>undefined\<close> and \<^verbatim>\<open>0\<close> are falsy.\<close>

definition orNull :: "int option \<Rightarrow> int option" where
  "orNull v = (case v of None \<Rightarrow> None | Some t \<Rightarrow> if t = 0 then None else Some t)"

text \<open>
  One iteration of \<^verbatim>\<open>for (const pr of prs)\<close> inside the loop over the persons. The
  natural number threaded through counts the reads of \<^verbatim>\<open>Date.now()\<close> made so far: a
  PR that is neither merged nor closed reads the clock for \<^verbatim>\<open>timeOpen\<close>, and every PR
  reads it for \<^verbatim>\<open>ageInDays\<close>.
\<close>

definition buildDetail ::
  "Env \<Rightarrow> (int \<times> ReviewData list) list \<Rightarrow> PersonData \<Rightarrow> PRData \<Rightarrow> nat
     \<Rightarrow> PersonPRDetail \<times> nat" where
  "buildDetail env reviews data pr n =
     (let isOwnPR = setHas (number pr) (ownPRNumbers data);
          prDetail = mapGet (prDetailsMap data) (number pr);
          (timeOpenV, n1) =
            (case mergedAt pr of
               Some m \<Rightarrow> (m - readyForReviewAt pr, n)
             | None \<Rightarrow>
                 (case closedAt pr of
                    Some c \<Rightarrow> (c - readyForReviewAt pr, n)
                  | None \<Rightarrow> (now env n - readyForReviewAt pr, n + 1)));
          prReviews = getOrEmpty reviews (number pr);
          uniqueReviewers =
            fold (\<lambda>review s. if \<not> isBot (reviewer review) then setAdd (reviewer review) s else s)
              prReviews [];
          reviewerCountV = length uniqueReviewers
      in (\<lparr>prNumber = number pr,
           d_title = title pr,
           d_author = author pr,
           d_createdAt = createdAt pr,
           d_readyForReviewAt = readyForReviewAt pr,
           ageInDays = (now env n1 - readyForReviewAt pr) div (1000 * 60 * 60 * 24),
           d_state = state pr,
           d_isDraft = isDraft pr,
           reviewStatus =
             (if isOwnPR then OWN_PR
              else (case prDetail of None \<Rightarrow> NOT_REVIEWED | Some stub \<Rightarrow> s_reviewStatus stub)),
           firstCommentTime =
             orNull (case prDetail of None \<Rightarrow> None | Some stub \<Rightarrow> s_firstCommentTime stub),
           firstReviewTime =
             orNull (case prDetail of None \<Rightarrow> None | Some stub \<Rightarrow> s_firstReviewTime stub),
           timeOpen = timeOpenV,
           reviewerCount = reviewerCountV,
           url = ''https://github.com/'' @ owner env @ ''/'' @ repo env @ ''/pull/''
                   @ showNumber (number pr)\<rparr>,
          n1 + 1))"

fun buildDetails ::
  "Env \<Rightarrow> (int \<times> ReviewData list) list \<Rightarrow> PersonData \<Rightarrow> PRData list \<Rightarrow> nat
     \<Rightarrow> PersonPRDetail list \<times> nat" where
  "buildDetails env reviews data [] n = ([], n)"
| "buildDetails env reviews data (pr # prs) n =
     (let (detail, n1) = buildDetail env reviews data pr n;
          (details, n2) = buildDetails env reviews data prs n1
      in (detail # details, n2))"

definition personStats ::
  "nat \<Rightarrow> string \<Rightarrow> PersonData \<Rightarrow> PersonPRDetail list \<Rightarrow> PersonStats" where
  "personStats totalPRs p data details =
     (let totalReviewsGivenV =
            reviewsApproved data + reviewsCommented data + reviewsChangesRequested data;
          prsReviewedExcludingOwn =
            setOf (filter (\<lambda>prNum. \<not> setHas prNum (ownPRNumbers data)) (prsReviewedSet data));
          prsReviewedCount = length prsReviewedExcludingOwn;
          totalPRsExcludingOwn = int totalPRs - int (length (ownPRNumbers data));
          rate =
            (if totalPRsExcludingOwn > 0
             then (of_nat prsReviewedCount / of_int totalPRsExcludingOwn) * 100
             else 0)
      in \<lparr>person = p,
          prsOpened = acc_prsOpened data,
          reviewMetrics =
            \<lparr>approved = reviewsApproved data,
             commented = reviewsCommented data,
             changesRequested = reviewsChangesRequested data\<rparr>,
          totalReviewsGiven = totalReviewsGivenV,
          uniquePRsReviewed = prsReviewedCount,
          reviewParticipationRate = rate,
          eligiblePRsForReview = totalPRsExcludingOwn,
          timeToFirstComment = calculateTimeMetrics (acc_timeToFirstComment data),
          timeToFirstReview = calculateTimeMetrics (acc_timeToFirstReview data),
          timeToApproval = calculateTimeMetrics (acc_timeToApproval data),
          prDetails = details\<rparr>)"

fun buildStats ::
  "Env \<Rightarrow> PRData list \<Rightarrow> (int \<times> ReviewData list) list \<Rightarrow> PersonMap \<Rightarrow> nat
     \<Rightarrow> PersonStats list" where
  "buildStats env prs reviews [] n = []"
| "buildStats env prs reviews (e # personMap) n =
     (let (details, n1) = buildDetails env reviews (snd e) prs n
      in personStats (length prs) (fst e) (snd e) details
           # buildStats env prs reviews personMap n1)"

text \<open>Sort by PRs opened (descending), then by person name.\<close>

definition compareStats :: "Env \<Rightarrow> PersonStats \<Rightarrow> PersonStats \<Rightarrow> int" where
  "compareStats env a b =
     (if prsOpened b \<noteq> prsOpened a then int (prsOpened b) - int (prsOpened a)
      else localeCompare env (person a) (person b))"

definition calculateStats ::
  "Env \<Rightarrow> PRData list \<Rightarrow> (int \<times> ReviewData list) list
     \<Rightarrow> (int \<times> ReviewRequestData list) list \<Rightarrow> (int \<times> CommentData list) list
     \<Rightarrow> PersonStats list" where
  "calculateStats env prs reviews reviewRequests comments =
     sortBy (compareStats env)
       (buildStats env prs reviews (buildPersonMap prs reviews reviewRequests comments) 0)"

section \<open>The accumulator of one person\<close>

text \<open>
  The persons do not interact: what \<^verbatim>\<open>personMap\<close> holds for a person \<open>p\<close> at the end is
  the result of the loop bodies above applied, in the order of the three loops, to the
  PRs that \<open>p\<close> opened, to the reviews of \<open>p\<close> and to the comments of \<open>p\<close>.
  \<open>personView\<close> is that accumulator, and \<open>accOf\<close> reads \<^verbatim>\<open>personMap\<close>. They are
  proved equal below.
\<close>

definition accOf :: "PersonMap \<Rightarrow> string \<Rightarrow> PersonData" where
  "accOf personMap p = (case mapGet personMap p of None \<Rightarrow> emptyPerson | Some d \<Rightarrow> d)"

definition reviewsOf :: "string \<Rightarrow> ReviewData list \<Rightarrow> ReviewData list" where
  "reviewsOf p prReviews =
     filter (\<lambda>r. reviewer r = p) (filter (\<lambda>review. \<not> isBot (reviewer review)) prReviews)"

definition commentsOf :: "string \<Rightarrow> CommentData list \<Rightarrow> CommentData list" where
  "commentsOf p prComments =
     filter (\<lambda>c. commenter c = p) (filter (\<lambda>c. \<not> isBot (commenter c)) prComments)"

definition seedView :: "string \<Rightarrow> PRData \<Rightarrow> PersonData \<Rightarrow> PersonData" where
  "seedView p pr d =
     (if \<not> isBot (author pr) \<and> author pr = p
      then d\<lparr>acc_prsOpened := acc_prsOpened d + 1,
              ownPRNumbers := setAdd (number pr) (ownPRNumbers d)\<rparr>
      else d)"

definition reviewsView ::
  "string \<Rightarrow> (int \<times> ReviewRequestData list) list \<Rightarrow> (int \<times> CommentData list) list
     \<Rightarrow> int \<times> ReviewData list \<Rightarrow> PersonData \<Rightarrow> PersonData" where
  "reviewsView p reviewRequests comments entry d =
     (if reviewsOf p (snd entry) = [] then d
      else reviewerStep (fst entry) (getOrEmpty reviewRequests (fst entry))
             (getOrEmpty comments (fst entry)) p (reviewsOf p (snd entry)) d)"

definition commentsView ::
  "string \<Rightarrow> (int \<times> ReviewRequestData list) list \<Rightarrow> int \<times> CommentData list
     \<Rightarrow> PersonData \<Rightarrow> PersonData" where
  "commentsView p reviewRequests entry d =
     (if commentsOf p (snd entry) = [] then d
      else commenterStep (fst entry) (getOrEmpty reviewRequests (fst entry)) p
             (commentsOf p (snd entry)) d)"

definition personView ::
  "string \<Rightarrow> PRData list \<Rightarrow> (int \<times> ReviewData list) list
     \<Rightarrow> (int \<times> ReviewRequestData list) list \<Rightarrow> (int \<times> CommentData list) list
     \<Rightarrow> PersonData" where
  "personView p prs reviews reviewRequests comments =
     fold (commentsView p reviewRequests) comments
       (fold (reviewsView p reviewRequests comments) reviews
          (fold (seedView p) prs emptyPerson))"

text \<open>The keys of \<^verbatim>\<open>personMap\<close> are distinct and none of them is a bot.\<close>

definition goodMap :: "PersonMap \<Rightarrow> bool" where
  "goodMap m \<longleftrightarrow> distinct (map fst m) \<and> (\<forall>p \<in> set (map fst m). \<not> isBot p)"

section \<open>What one review or comment step records\<close>

text \<open>
  The entry that the review loop stores in \<^verbatim>\<open>prDetailsMap\<close> for a reviewer \<open>p\<close> on a PR,
  and the entry that the comment loop stores for a commenter, written as functions of
  the PR's requests \<open>reqs\<close>, comments \<open>cs\<close> and reviews \<open>rs\<close>. The earliest interaction
  is the minimum of the timestamps here; the loops take the first element of a sorted
  array. The steps are proved to store exactly these entries.
\<close>

definition nonNeg :: "int \<Rightarrow> int option" where
  "nonNeg t = (if t \<ge> 0 then Some t else None)"

definition pushed :: "int option \<Rightarrow> int list" where
  "pushed v = (case v of None \<Rightarrow> [] | Some t \<Rightarrow> [t])"

definition requestFor :: "string \<Rightarrow> ReviewRequestData list \<Rightarrow> ReviewRequestData option" where
  "requestFor p reqs = find (\<lambda>req. q_reviewer req = p) reqs"

definition sortedReviewsOf :: "string \<Rightarrow> ReviewData list \<Rightarrow> ReviewData list" where
  "sortedReviewsOf p rs = sortBy (\<lambda>a b. submittedAt a - submittedAt b) (reviewsOf p rs)"

definition latestReviewOf :: "string \<Rightarrow> ReviewData list \<Rightarrow> ReviewData" where
  "latestReviewOf p rs = last (sortedReviewsOf p rs)"

definition firstFormalOf :: "string \<Rightarrow> ReviewData list \<Rightarrow> ReviewData option" where
  "firstFormalOf p rs = find isFormal (sortedReviewsOf p rs)"

definition firstInteraction :: "string \<Rightarrow> ReviewData list \<Rightarrow> CommentData list \<Rightarrow> int" where
  "firstInteraction p rs cs =
     Min (set (map submittedAt (reviewsOf p rs) @ map c_createdAt (commentsOf p cs)))"

definition reviewStub ::
  "string \<Rightarrow> ReviewRequestData list \<Rightarrow> CommentData list \<Rightarrow> ReviewData list \<Rightarrow> DetailStub" where
  "reviewStub p reqs cs rs =
     \<lparr>s_reviewStatus = Reviewed (r_state (latestReviewOf p rs)),
      s_firstCommentTime =
        (case requestFor p reqs of
           None \<Rightarrow> None
         | Some req \<Rightarrow> nonNeg (firstInteraction p rs cs - requestedAt req)),
      s_firstReviewTime =
        (case requestFor p reqs of
           None \<Rightarrow> None
         | Some req \<Rightarrow>
             (case firstFormalOf p rs of
                None \<Rightarrow> None
              | Some r \<Rightarrow> nonNeg (submittedAt r - requestedAt req)))\<rparr>"

definition commentStub ::
  "string \<Rightarrow> ReviewRequestData list \<Rightarrow> CommentData list \<Rightarrow> DetailStub" where
  "commentStub p reqs cs =
     \<lparr>s_reviewStatus = COMMENTED_ONLY,
      s_firstCommentTime =
        (case requestFor p reqs of
           None \<Rightarrow> None
         | Some req \<Rightarrow>
             nonNeg (Min (set (map c_createdAt (commentsOf p cs))) - requestedAt req)),
      s_firstReviewTime = None\<rparr>"

text \<open>
  The entry of \<^verbatim>\<open>prDetailsMap\<close> that a person \<open>p\<close> ends with for the PR number \<open>k\<close>: the
  review loop's entry when \<open>p\<close> has a review on the PR, else the comment loop's entry
  when \<open>p\<close> has a comment on it, else none.
\<close>

definition stubOf ::
  "string \<Rightarrow> (int \<times> ReviewData list) list \<Rightarrow> (int \<times> ReviewRequestData list) list
     \<Rightarrow> (int \<times> CommentData list) list \<Rightarrow> int \<Rightarrow> DetailStub option" where
  "stubOf p reviews reviewRequests comments k =
     (if reviewsOf p (getOrEmpty reviews k) \<noteq> []
        then Some (reviewStub p (getOrEmpty reviewRequests k) (getOrEmpty comments k)
                     (getOrEmpty reviews k))
      else if commentsOf p (getOrEmpty comments k) \<noteq> []
        then Some (commentStub p (getOrEmpty reviewRequests k) (getOrEmpty comments k))
      else None)"

text \<open>
  The durations that the two loops push for a person \<open>p\<close>: the review loop pushes, for
  every entry of \<^verbatim>\<open>reviews\<close> on which \<open>p\<close> has a review, the timing kept in the entry
  stored for that PR; the comment loop pushes the first-comment time of the PRs that
  \<open>p\<close> commented without reviewing.
\<close>

definition reviewTimesOf ::
  "(DetailStub \<Rightarrow> int option) \<Rightarrow> string \<Rightarrow> (int \<times> ReviewData list) list
     \<Rightarrow> (int \<times> ReviewRequestData list) list \<Rightarrow> (int \<times> CommentData list) list \<Rightarrow> int list" where
  "reviewTimesOf field p reviews reviewRequests comments =
     concat (map (\<lambda>e. if reviewsOf p (snd e) = [] then []
                       else pushed (field (reviewStub p (getOrEmpty reviewRequests (fst e))
                                             (getOrEmpty comments (fst e)) (snd e))))
               reviews)"

definition commentTimesOf ::
  "string \<Rightarrow> (int \<times> ReviewData list) list \<Rightarrow> (int \<times> ReviewRequestData list) list
     \<Rightarrow> (int \<times> CommentData list) list \<Rightarrow> int list" where
  "commentTimesOf p reviews reviewRequests comments =
     concat (map (\<lambda>e. if commentsOf p (snd e) = [] \<or> reviewsOf p (getOrEmpty reviews (fst e)) \<noteq> []
                       then []
                       else pushed (s_firstCommentTime
                              (commentStub p (getOrEmpty reviewRequests (fst e)) (snd e))))
               comments)"

section \<open>The elapsed times of a person on a PR\<close>

text \<open>
  The elapsed times that \<^verbatim>\<open>calculateStats\<close> computes for a person \<open>p\<close> on the PR number
  \<open>k\<close>, before the test for a negative value: the earliest review or comment of \<open>p\<close> on
  the PR (the earliest comment, when \<open>p\<close> has no review on it) minus the request
  timestamp, and the first approval or request for changes of \<open>p\<close> minus the request
  timestamp. There is none without a request for \<open>p\<close> on the PR; the request is the
  first one for \<open>p\<close> in the array.
\<close>

definition firstCommentElapsed ::
  "string \<Rightarrow> (int \<times> ReviewData list) list \<Rightarrow> (int \<times> ReviewRequestData list) list
     \<Rightarrow> (int \<times> CommentData list) list \<Rightarrow> int \<Rightarrow> int option" where
  "firstCommentElapsed p reviews reviewRequests comments k =
     (case requestFor p (getOrEmpty reviewRequests k) of
        None \<Rightarrow> None
      | Some req \<Rightarrow>
          if reviewsOf p (getOrEmpty reviews k) \<noteq> []
            then Some (firstInteraction p (getOrEmpty reviews k) (getOrEmpty comments k)
                         - requestedAt req)
          else if commentsOf p (getOrEmpty comments k) \<noteq> []
            then Some (Min (set (map c_createdAt (commentsOf p (getOrEmpty comments k))))
                         - requestedAt req)
          else None)"

definition firstReviewElapsed ::
  "string \<Rightarrow> (int \<times> ReviewData list) list \<Rightarrow> (int \<times> ReviewRequestData list) list
     \<Rightarrow> int \<Rightarrow> int option" where
  "firstReviewElapsed p reviews reviewRequests k =
     (case requestFor p (getOrEmpty reviewRequests k) of
        None \<Rightarrow> None
      | Some req \<Rightarrow>
          (case firstFormalOf p (getOrEmpty reviews k) of
             None \<Rightarrow> None
           | Some r \<Rightarrow> Some (submittedAt r - requestedAt req)))"

section \<open>The fields computed from the clock\<close>

text \<open>
  \<open>eraseClock prs\<close> blanks, in the result, the fields that \<^verbatim>\<open>calculateStats\<close> computes from
  \<^verbatim>\<open>Date.now()\<close>: \<^verbatim>\<open>ageInDays\<close> of every row, and \<^verbatim>\<open>timeOpen\<close> of the rows whose PR is
  neither merged nor closed.
\<close>

definition eraseDetail :: "PRData \<Rightarrow> PersonPRDetail \<Rightarrow> PersonPRDetail" where
  "eraseDetail pr det =
     det\<lparr>ageInDays := 0,
         timeOpen := (if mergedAt pr = None \<and> closedAt pr = None then 0 else timeOpen det)\<rparr>"

definition eraseClock :: "PRData list \<Rightarrow> PersonStats \<Rightarrow> PersonStats" where
  "eraseClock prs ps = ps\<lparr>prDetails := map2 eraseDetail prs (prDetails ps)\<rparr>"

section \<open>Sample inputs\<close>

text \<open>
  Two PRs: the first opened by alice and approved by bob two hours after the request,
  the second opened by bob and commented by alice. The comparator orders strings by
  their character codes.
\<close>

fun compareStrings :: "string \<Rightarrow> string \<Rightarrow> int" where
  "compareStrings [] [] = 0"
| "compareStrings [] (b # bs) = - 1"
| "compareStrings (a # as) [] = 1"
| "compareStrings (a # as) (b # bs) =
     (if (of_char a :: nat) < of_char b then - 1
      else if (of_char b :: nat) < of_char a then 1
      else compareStrings as bs)"

definition sampleEnv :: Env where
  "sampleEnv = \<lparr>now = (\<lambda>n. 90000000 + int n), owner = ''pbstck'', repo = ''app'',
                 localeCompare = compareStrings\<rparr>"

definition samplePRs :: "PRData list" where
  "samplePRs =
     [\<lparr>number = 1, title = ''first'', author = ''alice'', createdAt = 0, readyForReviewAt = 0,
       closedAt = None, mergedAt = None, state = PR_open, isDraft = False\<rparr>,
      \<lparr>number = 2, title = ''second'', author = ''bob'', createdAt = 10, readyForReviewAt = 10,
       closedAt = None, mergedAt = Some 5000, state = PR_merged, isDraft = False\<rparr>]"

definition sampleReviews :: "(int \<times> ReviewData list) list" where
  "sampleReviews =
     [(1, [\<lparr>r_prNumber = 1, reviewer = ''bob'', r_state = APPROVED, submittedAt = 7200000\<rparr>]),
      (2, [])]"

definition sampleRequests :: "(int \<times> ReviewRequestData list) list" where
  "sampleRequests =
     [(1, [\<lparr>q_prNumber = 1, q_reviewer = ''bob'', requestedAt = 0\<rparr>]), (2, [])]"

definition sampleComments :: "(int \<times> CommentData list) list" where
  "sampleComments =
     [(1, []), (2, [\<lparr>c_prNumber = 2, commenter = ''alice'', c_createdAt = 600\<rparr>])]"

text \<open>
  A variant of the sample: bob reviews the first PR three times, and the approval is the
  latest review although it is not the last element of the array.
\<close>

definition flipReviews :: "(int \<times> ReviewData list) list" where
  "flipReviews =
     [(1, [\<lparr>r_prNumber = 1, reviewer = ''bob'', r_state = COMMENTED, submittedAt = 100\<rparr>,
           \<lparr>r_prNumber = 1, reviewer = ''bob'', r_state = APPROVED, submittedAt = 300\<rparr>,
           \<lparr>r_prNumber = 1, reviewer = ''bob'', r_state = CHANGES_REQUESTED, submittedAt = 200\<rparr>]),
      (2, [])]"

text \<open>A variant of the sample: the only review of the first PR is bob's, of type "commented".\<close>

definition commentedReviews :: "(int \<times> ReviewData list) list" where
  "commentedReviews =
     [(1, [\<lparr>r_prNumber = 1, reviewer = ''bob'', r_state = COMMENTED, submittedAt = 100\<rparr>]),
      (2, [])]"

text \<open>The environment of the sample with a clock one day later.\<close>

definition laterEnv :: Env where
  "laterEnv = sampleEnv\<lparr>now := (\<lambda>n. 180000000 + int n)\<rparr>"

text \<open>
  A variant of the sample: bob is requested on the first PR at the very millisecond of
  his approval.
\<close>

definition zeroRequests :: "(int \<times> ReviewRequestData list) list" where
  "zeroRequests =
     [(1, [\<lparr>q_prNumber = 1, q_reviewer = ''bob'', requestedAt = 7200000\<rparr>]), (2, [])]"

text \<open>
  A variant of the sample: bob is requested on the first PR five minutes after his
  approval.
\<close>

definition lateRequests :: "(int \<times> ReviewRequestData list) list" where
  "lateRequests =
     [(1, [\<lparr>q_prNumber = 1, q_reviewer = ''bob'', requestedAt = 7500000\<rparr>]), (2, [])]"

text \<open>
  Two variants of the sample. In the first, bob is requested twice on the first PR and
  the records are not in chronological order: the first record of the array is the later
  request. In the second, the records are in chronological order.
\<close>

definition unorderedRequests :: "(int \<times> ReviewRequestData list) list" where
  "unorderedRequests =
     [(1, [\<lparr>q_prNumber = 1, q_reviewer = ''bob'', requestedAt = 5000\<rparr>,
           \<lparr>q_prNumber = 1, q_reviewer = ''bob'', requestedAt = 0\<rparr>]),
      (2, [])]"

definition repeatedRequests :: "(int \<times> ReviewRequestData list) list" where
  "repeatedRequests =
     [(1, [\<lparr>q_prNumber = 1, q_reviewer = ''bob'', requestedAt = 0\<rparr>,
           \<lparr>q_prNumber = 1, q_reviewer = ''bob'', requestedAt = 5000\<rparr>]),
      (2, [])]"

section \<open>Properties of the helpers\<close>

lemma insertBy_diff_insort_key:
  "insertBy (\<lambda>a b. f a - f b) x ys = insort_key f x ys"
  for f :: "'a \<Rightarrow> int"
  by (induction ys) simp_all

lemma sortBy_diff_sort_key:
  "sortBy (\<lambda>a b. f a - f b) xs = sort_key f xs"
  for f :: "'a \<Rightarrow> int"
  by (induction xs) (simp_all add: sortBy_def insertBy_diff_insort_key)

lemma sortBy_minus_sort: "sortBy (\<lambda>a b. a - b) xs = sort xs"
  for xs :: "int list"
  using sortBy_diff_sort_key [of "\<lambda>x. x" xs] by simp

subsection \<open>Maps and grouping\<close>

lemma mapGet_mapSet: "mapGet (mapSet k v m) k' = (if k' = k then Some v else mapGet m k')"
  by (induction m) (auto simp: mapGet_def)

lemma keys_mapSet: "set (map fst (mapSet k v m)) = insert k (set (map fst m))"
  by (induction m) auto

lemma distinct_mapSet: "distinct (map fst m) \<Longrightarrow> distinct (map fst (mapSet k v m))"
  by (induction m) (auto simp: keys_mapSet[simplified])

lemma mapGet_mapModify:
  "mapGet (mapModify k f m) k' = (if k' = k then map_option f (mapGet m k) else mapGet m k')"
  by (induction m) (auto simp: mapGet_def mapModify_def)

lemma keys_mapModify: "map fst (mapModify k f m) = map fst m"
  by (induction m) (auto simp: mapModify_def)

lemma mapHas_keys: "mapHas k m \<longleftrightarrow> k \<in> set (map fst m)"
  by (simp add: mapHas_def mapGet_def map_of_eq_None_iff)

subsection \<open>One person inside \<^verbatim>\<open>personMap\<close>\<close>

lemma accOf_touch:
  "accOf (mapModify p f (ensurePerson p m)) q = (if q = p then f (accOf m p) else accOf m q)"
  by (auto simp: accOf_def ensurePerson_def mapGet_mapModify mapGet_mapSet mapHas_def split: option.splits)

lemma keys_touch:
  "set (map fst (mapModify p f (ensurePerson p m))) = insert p (set (map fst m))"
  by (auto simp: keys_mapModify ensurePerson_def keys_mapSet[simplified] mapHas_keys)

lemma distinct_touch:
  "distinct (map fst m) \<Longrightarrow> distinct (map fst (mapModify p f (ensurePerson p m)))"
  by (simp add: keys_mapModify ensurePerson_def distinct_mapSet)

lemma mapGet_groupStep:
  "mapGet (groupStep key x m) k =
     (if key x = k then Some ((case mapGet m k of None \<Rightarrow> [] | Some l \<Rightarrow> l) @ [x]) else mapGet m k)"
  by (auto simp: groupStep_def mapGet_mapModify mapGet_mapSet mapHas_def split: option.splits)

lemma mapGet_fold_groupStep:
  "mapGet (fold (groupStep key) xs m) k =
     (case mapGet m k of
        None \<Rightarrow> (if k \<in> key ` set xs then Some (filter (\<lambda>x. key x = k) xs) else None)
      | Some l \<Rightarrow> Some (l @ filter (\<lambda>x. key x = k) xs))"
proof (induction xs arbitrary: m)
  case Nil
  then show ?case by (simp split: option.splits)
next
  case (Cons x xs)
  show ?case
    by (simp add: Cons.IH mapGet_groupStep split: option.splits)
qed

lemma mapGet_groupBy:
  "mapGet (groupBy key xs) k =
     (if k \<in> key ` set xs then Some (filter (\<lambda>x. key x = k) xs) else None)"
  by (simp add: groupBy_def mapGet_fold_groupStep) (simp add: mapGet_def)

lemma distinct_groupStep:
  "distinct (map fst m) \<Longrightarrow> distinct (map fst (groupStep key x m))"
  by (simp add: groupStep_def keys_mapModify distinct_mapSet)

lemma distinct_fold_groupStep:
  "distinct (map fst m) \<Longrightarrow> distinct (map fst (fold (groupStep key) xs m))"
  by (induction xs arbitrary: m) (simp_all add: distinct_groupStep)

lemma distinct_groupBy: "distinct (map fst (groupBy key xs))"
  by (simp add: groupBy_def distinct_fold_groupStep)

lemma keys_groupBy: "set (map fst (groupBy key xs)) = key ` set xs"
proof -
  have "k \<in> set (map fst (groupBy key xs)) \<longleftrightarrow> k \<in> key ` set xs" for k
    using mapGet_groupBy [of key xs k] mapHas_keys [of k "groupBy key xs"]
    by (auto simp: mapHas_def split: if_splits)
  then show ?thesis by blast
qed

lemma accOf_fold_touch:
  "distinct (map fst G) \<Longrightarrow>
   accOf (fold (\<lambda>e m. mapModify (fst e) (F (fst e) (snd e)) (ensurePerson (fst e) m)) G m0) q =
     (case mapGet G q of None \<Rightarrow> accOf m0 q | Some l \<Rightarrow> F q l (accOf m0 q))"
proof (induction G arbitrary: m0)
  case Nil
  then show ?case by (simp add: mapGet_def)
next
  case (Cons e G)
  then have d: "distinct (map fst G)" and ne: "fst e \<notin> set (map fst G)" by auto
  from ne have g: "mapGet G (fst e) = None"
    by (simp add: mapGet_def map_of_eq_None_iff)
  show ?case
    using g by (cases e) (auto simp: Cons.IH [OF d] accOf_touch mapGet_def split: option.splits)
qed

lemma keys_fold_touch:
  "set (map fst (fold (\<lambda>e m. mapModify (fst e) (F (fst e) (snd e)) (ensurePerson (fst e) m)) G m0)) =
     set (map fst m0) \<union> set (map fst G)"
proof (induction G arbitrary: m0)
  case Nil
  then show ?case by simp
next
  case (Cons e G)
  show ?case
    by (simp only: fold_simps Cons.IH keys_touch) auto
qed

lemma distinct_fold_touch:
  "distinct (map fst m0) \<Longrightarrow>
   distinct (map fst (fold (\<lambda>e m. mapModify (fst e) (F (fst e) (snd e)) (ensurePerson (fst e) m)) G m0))"
  by (induction G arbitrary: m0) (simp_all add: distinct_touch)

lemma reviewsOf_empty_iff:
  "reviewsOf p rs = [] \<longleftrightarrow> p \<notin> reviewer ` set (filter (\<lambda>review. \<not> isBot (reviewer review)) rs)"
  by (auto simp: reviewsOf_def filter_empty_conv)

lemma commentsOf_empty_iff:
  "commentsOf p cs = [] \<longleftrightarrow> p \<notin> commenter ` set (filter (\<lambda>c. \<not> isBot (commenter c)) cs)"
  by (auto simp: commentsOf_def filter_empty_conv)

lemma accOf_processReviews:
  "accOf (processReviews RR C e m) p = reviewsView p RR C e (accOf m p)"
  unfolding processReviews_def reviewsView_def Let_def
  by (simp only: accOf_fold_touch [OF distinct_groupBy] mapGet_groupBy reviewsOf_empty_iff)
     (simp add: reviewsOf_def)

lemma accOf_processComments:
  "accOf (processComments RR e m) p = commentsView p RR e (accOf m p)"
  unfolding processComments_def commentsView_def Let_def
  by (simp only: accOf_fold_touch [OF distinct_groupBy] mapGet_groupBy commentsOf_empty_iff)
     (simp add: commentsOf_def)

lemma accOf_seedAuthor: "accOf (seedAuthor pr m) p = seedView p pr (accOf m p)"
  by (auto simp: seedAuthor_def seedView_def accOf_touch)

lemma accOf_fold_gen:
  assumes "\<And>e m. accOf (step e m) p = view e (accOf m p)"
  shows "accOf (fold step xs m) p = fold view xs (accOf m p)"
  by (induction xs arbitrary: m) (simp_all add: assms)

lemma accOf_buildPersonMap:
  "accOf (buildPersonMap prs R RR C) p = personView p prs R RR C"
  unfolding buildPersonMap_def personView_def
  by (simp add: accOf_fold_gen [where view = "commentsView p RR", OF accOf_processComments]
        accOf_fold_gen [where view = "reviewsView p RR C", OF accOf_processReviews]
        accOf_fold_gen [where view = "seedView p", OF accOf_seedAuthor])
     (simp add: accOf_def mapGet_def)

subsection \<open>The keys of \<^verbatim>\<open>personMap\<close>\<close>

lemma goodMap_fold:
  assumes "\<And>x m. goodMap m \<Longrightarrow> goodMap (f x m)" and "goodMap m"
  shows "goodMap (fold f xs m)"
  using assms(2) by (induction xs arbitrary: m) (simp_all add: assms(1))

lemma goodMap_touch:
  "goodMap m \<Longrightarrow> \<not> isBot p \<Longrightarrow> goodMap (mapModify p f (ensurePerson p m))"
  unfolding goodMap_def by (simp only: keys_touch distinct_touch) simp

lemma goodMap_fold_touch:
  "goodMap m0 \<Longrightarrow> \<forall>e \<in> set G. \<not> isBot (fst e) \<Longrightarrow>
   goodMap (fold (\<lambda>e m. mapModify (fst e) (F (fst e) (snd e)) (ensurePerson (fst e) m)) G m0)"
  by (induction G arbitrary: m0) (simp_all add: goodMap_touch)

lemma goodMap_seedAuthor: "goodMap m \<Longrightarrow> goodMap (seedAuthor pr m)"
  by (simp add: seedAuthor_def goodMap_touch)

lemma groupBy_keys_nonbot:
  "\<forall>e \<in> set (groupBy key (filter (\<lambda>x. \<not> isBot (key x)) xs)). \<not> isBot (fst e)"
proof
  fix e assume "e \<in> set (groupBy key (filter (\<lambda>x. \<not> isBot (key x)) xs))"
  then have "fst e \<in> set (map fst (groupBy key (filter (\<lambda>x. \<not> isBot (key x)) xs)))"
    by simp
  then have "fst e \<in> key ` set (filter (\<lambda>x. \<not> isBot (key x)) xs)"
    by (simp only: keys_groupBy)
  then show "\<not> isBot (fst e)" by auto
qed

lemma goodMap_processReviews: "goodMap m \<Longrightarrow> goodMap (processReviews RR C e m)"
  unfolding processReviews_def Let_def
  by (rule goodMap_fold_touch) (simp_all add: groupBy_keys_nonbot)

lemma goodMap_processComments: "goodMap m \<Longrightarrow> goodMap (processComments RR e m)"
  unfolding processComments_def Let_def
  by (rule goodMap_fold_touch) (simp_all add: groupBy_keys_nonbot)

lemma goodMap_buildPersonMap: "goodMap (buildPersonMap prs R RR C)"
proof -
  have "goodMap []" by (simp add: goodMap_def)
  then have "goodMap (fold seedAuthor prs [])"
    by (rule goodMap_fold [rotated]) (rule goodMap_seedAuthor)
  then have "goodMap (fold (processReviews RR C) R (fold seedAuthor prs []))"
    by (rule goodMap_fold [rotated]) (rule goodMap_processReviews)
  then show ?thesis
    unfolding buildPersonMap_def
    by (rule goodMap_fold [rotated]) (rule goodMap_processComments)
qed

subsection \<open>The elements of the result\<close>

lemma set_insertBy: "set (insertBy cmp x ys) = insert x (set ys)"
  by (induction ys) auto

lemma set_sortBy: "set (sortBy cmp xs) = set xs"
  by (induction xs) (simp_all add: sortBy_def set_insertBy)

lemma length_insertBy: "length (insertBy cmp x ys) = Suc (length ys)"
  by (induction ys) auto

lemma length_sortBy: "length (sortBy cmp xs) = length xs"
  by (induction xs) (simp_all add: sortBy_def length_insertBy)

lemma person_personStats: "person (personStats t p d ds) = p"
  by (simp add: personStats_def Let_def)

lemma buildStats_elem:
  "ps \<in> set (buildStats env prs R m n) \<Longrightarrow>
   \<exists>e n'. e \<in> set m \<and>
     ps = personStats (length prs) (fst e) (snd e) (fst (buildDetails env R (snd e) prs n'))"
proof (induction m arbitrary: n)
  case Nil
  then show ?case by simp
next
  case (Cons e m)
  obtain details n1 where b: "buildDetails env R (snd e) prs n = (details, n1)"
    by (cases "buildDetails env R (snd e) prs n")
  from Cons.prems b
  have "ps = personStats (length prs) (fst e) (snd e) details \<or> ps \<in> set (buildStats env prs R m n1)"
    by simp
  then show ?case
  proof
    assume "ps = personStats (length prs) (fst e) (snd e) details"
    with b have "ps = personStats (length prs) (fst e) (snd e) (fst (buildDetails env R (snd e) prs n))"
      by simp
    then show ?thesis by (intro exI [of _ e] exI [of _ n]) simp
  next
    assume "ps \<in> set (buildStats env prs R m n1)"
    from Cons.IH [OF this] show ?thesis by auto
  qed
qed

lemma accOf_entry: "distinct (map fst m) \<Longrightarrow> e \<in> set m \<Longrightarrow> accOf m (fst e) = snd e"
  by (cases e) (simp add: accOf_def mapGet_def)

lemma calculateStats_elem:
  assumes "ps \<in> set (calculateStats env prs R RR C)"
  shows "\<not> isBot (person ps) \<and>
    (\<exists>n. ps = personStats (length prs) (person ps) (personView (person ps) prs R RR C)
            (fst (buildDetails env R (personView (person ps) prs R RR C) prs n)))"
proof -
  let ?m = "buildPersonMap prs R RR C"
  from assms have "ps \<in> set (buildStats env prs R ?m 0)"
    by (simp add: calculateStats_def set_sortBy)
  from buildStats_elem [OF this] obtain e n' where e: "e \<in> set ?m"
    and ps: "ps = personStats (length prs) (fst e) (snd e) (fst (buildDetails env R (snd e) prs n'))"
    by blast
  have good: "goodMap ?m" by (rule goodMap_buildPersonMap)
  from ps have p: "person ps = fst e" by (simp add: person_personStats)
  from good e have nb: "\<not> isBot (fst e)" by (auto simp: goodMap_def)
  from good e have "accOf ?m (fst e) = snd e" by (simp add: goodMap_def accOf_entry)
  then have v: "snd e = personView (fst e) prs R RR C" by (simp add: accOf_buildPersonMap)
  show ?thesis using nb ps p v by auto
qed

lemma buildDetails_rows:
  "list_all2 (\<lambda>pr det. \<exists>n'. det = fst (buildDetail env R d pr n'))
     prs (fst (buildDetails env R d prs n))"
proof (induction prs arbitrary: n)
  case Nil
  then show ?case by simp
next
  case (Cons pr prs)
  obtain det n1 where a: "buildDetail env R d pr n = (det, n1)"
    by (cases "buildDetail env R d pr n")
  obtain dets n2 where b: "buildDetails env R d prs n1 = (dets, n2)"
    by (cases "buildDetails env R d prs n1")
  from Cons.IH [of n1] b
  have "list_all2 (\<lambda>pr det. \<exists>n'. det = fst (buildDetail env R d pr n')) prs dets" by simp
  moreover from a have "\<exists>n'. det = fst (buildDetail env R d pr n')"
    by (intro exI [of _ n]) simp
  ultimately show ?case using a b by simp
qed

lemma buildDetails_length: "length (fst (buildDetails env R d prs n)) = length prs"
  using buildDetails_rows [of env R d prs n] by (simp add: list_all2_lengthD)

lemma buildDetails_nth:
  "i < length prs \<Longrightarrow>
   \<exists>n'. fst (buildDetails env R d prs n) ! i = fst (buildDetail env R d (prs ! i) n')"
  using buildDetails_rows [of env R d prs n] by (simp add: list_all2_conv_all_nth)

lemma prNumber_buildDetail: "prNumber (fst (buildDetail env R d pr n)) = number pr"
  by (simp add: buildDetail_def Let_def split: option.splits prod.splits)

lemma prDetails_personStats: "prDetails (personStats t p d ds) = ds"
  by (simp add: personStats_def Let_def)

lemma map_prNumber_buildDetails:
  "map prNumber (fst (buildDetails env R d prs n)) = map number prs"
proof (rule nth_equalityI)
  show "length (map prNumber (fst (buildDetails env R d prs n))) = length (map number prs)"
    by (simp add: buildDetails_length)
next
  fix i assume "i < length (map prNumber (fst (buildDetails env R d prs n)))"
  then have i: "i < length prs" by (simp add: buildDetails_length)
  from buildDetails_nth [OF i, of env R d n]
  obtain n' where "fst (buildDetails env R d prs n) ! i = fst (buildDetail env R d (prs ! i) n')"
    by blast
  with i show "map prNumber (fst (buildDetails env R d prs n)) ! i = map number prs ! i"
    by (simp add: buildDetails_length prNumber_buildDetail)
qed

lemma filter_eq_singleton:
  "distinct ys \<Longrightarrow> y \<in> set ys \<Longrightarrow> length (filter (\<lambda>k. k = y) ys) = 1"
  by (induction ys) (auto simp: filter_empty_conv)

lemma sample_persons:
  "map person (calculateStats sampleEnv samplePRs sampleReviews sampleRequests sampleComments)
     = [''alice'', ''bob'']"
  by code_simp

subsection \<open>Sorting by a key\<close>

lemma sorted_nth0_Min:
  "sorted (map f ys) \<Longrightarrow> ys \<noteq> [] \<Longrightarrow> f (ys ! 0) = Min (f ` set ys)"
  for f :: "'a \<Rightarrow> int"
proof -
  assume s: "sorted (map f ys)" and ne: "ys \<noteq> []"
  then obtain y ys' where ys: "ys = y # ys'" by (cases ys) auto
  with s have "\<forall>z \<in> set ys. f y \<le> f z" by auto
  then have "Min (f ` set ys) = f y"
    using ys by (intro Min_eqI) auto
  then show ?thesis using ys by simp
qed

lemma sortBy_eq_Nil: "sortBy cmp xs = [] \<longleftrightarrow> xs = []"
  using length_sortBy [of cmp xs] by (cases xs) auto

lemma sort_key_eq_Nil: "sort_key f xs = [] \<longleftrightarrow> xs = []"
  using length_sort [of f xs] by (cases xs) auto

lemma sortBy_key_nth0:
  "xs \<noteq> [] \<Longrightarrow> f (sortBy (\<lambda>a b. f a - f b) xs ! 0) = Min (f ` set xs)"
  for f :: "'a \<Rightarrow> int"
  using sorted_nth0_Min [of f "sort_key f xs"]
  by (simp add: sortBy_diff_sort_key sort_key_eq_Nil)

lemma sortBy_key_last:
  "xs \<noteq> [] \<Longrightarrow>
   sortBy (\<lambda>a b. f a - f b) xs ! (length (sortBy (\<lambda>a b. f a - f b) xs) - 1)
     = last (sortBy (\<lambda>a b. f a - f b) xs)"
  for f :: "'a \<Rightarrow> int"
  by (simp add: last_conv_nth sortBy_eq_Nil)

lemma sorted_last_Max:
  "sorted (map f ys) \<Longrightarrow> ys \<noteq> [] \<Longrightarrow> \<forall>z \<in> set ys. f z \<le> f (last ys)"
  for f :: "'a \<Rightarrow> int"
proof (induction ys)
  case Nil
  then show ?case by simp
next
  case (Cons y ys)
  then show ?case by (cases ys) auto
qed

lemma sortBy_key_last_max:
  "xs \<noteq> [] \<Longrightarrow> z \<in> set xs \<Longrightarrow> f z \<le> f (last (sortBy (\<lambda>a b. f a - f b) xs))"
  for f :: "'a \<Rightarrow> int"
  using sorted_last_Max [of f "sort_key f xs"]
  by (simp add: sortBy_diff_sort_key sort_key_eq_Nil)

lemma sortBy_last_mem: "xs \<noteq> [] \<Longrightarrow> last (sortBy cmp xs) \<in> set xs"
  using last_in_set [of "sortBy cmp xs"] set_sortBy [of cmp xs] by (simp add: sortBy_eq_Nil)

lemma find_sorted_least:
  "sorted (map f ys) \<Longrightarrow> find P ys = Some r \<Longrightarrow> z \<in> set ys \<Longrightarrow> P z \<Longrightarrow> f r \<le> f z"
  for f :: "'a \<Rightarrow> int"
  by (induction ys) (auto split: if_splits)

lemma find_sortBy_key_least:
  "find P (sortBy (\<lambda>a b. f a - f b) xs) = Some r \<Longrightarrow> z \<in> set xs \<Longrightarrow> P z \<Longrightarrow> f r \<le> f z"
  for f :: "'a \<Rightarrow> int"
  using find_sorted_least [of f "sort_key f xs" P r z]
  by (simp add: sortBy_diff_sort_key)

lemma find_Some_mem: "find P ys = Some r \<Longrightarrow> r \<in> set ys \<and> P r"
  by (induction ys) (auto split: if_splits)

lemma find_None_iff_no: "find P ys = None \<longleftrightarrow> (\<forall>z \<in> set ys. \<not> P z)"
  by (induction ys) auto

subsection \<open>The review step and the comment step\<close>

lemma personComments_commentsOf:
  "filter (\<lambda>c. commenter c = p \<and> \<not> isBot (commenter c)) cs = commentsOf p cs"
  by (simp add: commentsOf_def conj_commute)

lemma interactions_first:
  assumes "srt \<noteq> []"
  shows "snd (sortBy (\<lambda>a b. snd a - snd b)
            (map (\<lambda>review. (''review'', submittedAt review)) srt
               @ map (\<lambda>comment. (''comment'', c_createdAt comment)) pcs) ! 0)
         = Min (set (map submittedAt srt @ map c_createdAt pcs))"
proof -
  let ?L = "map (\<lambda>review. (''review'', submittedAt review)) srt
               @ map (\<lambda>comment. (''comment'', c_createdAt comment)) pcs"
  have ne: "?L \<noteq> []" using assms by simp
  have "snd ` set ?L = set (map submittedAt srt @ map c_createdAt pcs)"
    by (auto simp: image_Un image_image)
  with sortBy_key_nth0 [OF ne, of snd] show ?thesis by simp
qed

lemma reviewTimes_eq:
  assumes "srt \<noteq> []"
  shows "reviewTimes req cs p srt d =
    (let fc = nonNeg (Min (set (map submittedAt srt @ map c_createdAt (commentsOf p cs)))
                       - requestedAt req);
         fr = (case find isFormal srt of
                 None \<Rightarrow> None
               | Some r \<Rightarrow> nonNeg (submittedAt r - requestedAt req))
     in (d\<lparr>acc_timeToFirstComment := acc_timeToFirstComment d @ pushed fc,
            acc_timeToFirstReview := acc_timeToFirstReview d @ pushed fr,
            acc_timeToApproval := acc_timeToApproval d @ pushed fr\<rparr>, fc, fr))"
proof -
  have len: "0 < length (sortBy (\<lambda>a b. snd a - snd b)
            (map (\<lambda>review. (''review'', submittedAt review)) srt
               @ map (\<lambda>comment. (''comment'', c_createdAt comment)) (commentsOf p cs)))"
    using assms by (simp add: length_sortBy)
  show ?thesis
    unfolding reviewTimes_def personComments_commentsOf Let_def
    by (simp only: len if_True interactions_first [OF assms])
       (simp add: nonNeg_def pushed_def split: option.splits)
qed

lemma Min_interactions_sorted:
  "Min (set (map submittedAt (sortBy cmp xs) @ ys)) = Min (set (map submittedAt xs @ ys))"
  by (simp add: set_sortBy)

lemma reviewerStep_eq:
  assumes "reviewsOf p rs \<noteq> []"
  shows "reviewerStep k reqs cs p (reviewsOf p rs) d =
    (countReviewType (latestReviewOf p rs) d)
      \<lparr>prsReviewedSet := setAdd k (prsReviewedSet d),
       acc_timeToFirstComment :=
         acc_timeToFirstComment d @ pushed (s_firstCommentTime (reviewStub p reqs cs rs)),
       acc_timeToFirstReview :=
         acc_timeToFirstReview d @ pushed (s_firstReviewTime (reviewStub p reqs cs rs)),
       acc_timeToApproval :=
         acc_timeToApproval d @ pushed (s_firstReviewTime (reviewStub p reqs cs rs)),
       prDetailsMap := mapSet k (reviewStub p reqs cs rs) (prDetailsMap d)\<rparr>"
proof -
  let ?srt = "sortBy (\<lambda>a b. submittedAt a - submittedAt b) (reviewsOf p rs)"
  have ne: "?srt \<noteq> []" using assms by (simp add: sortBy_eq_Nil)
  have last: "?srt ! (length ?srt - 1) = latestReviewOf p rs"
    using sortBy_key_last [OF assms, of submittedAt]
    by (simp add: latestReviewOf_def sortedReviewsOf_def)
  show ?thesis
  proof (cases "find (\<lambda>req. q_reviewer req = p) reqs")
    case None
    then show ?thesis
      unfolding reviewerStep_def Let_def last
      by (simp add: reviewStub_def requestFor_def pushed_def countReviewType_def)
  next
    case (Some req)
    then show ?thesis
      unfolding reviewerStep_def Let_def last reviewTimes_eq [OF ne] Min_interactions_sorted
      by (simp add: reviewStub_def requestFor_def firstInteraction_def firstFormalOf_def
            sortedReviewsOf_def countReviewType_def split: option.splits)
  qed
qed

lemma commenterStep_eq:
  assumes "commentsOf p cs \<noteq> []"
  shows "commenterStep k reqs p (commentsOf p cs) d =
    (if mapHas k (prDetailsMap d) then d
     else d\<lparr>acc_timeToFirstComment :=
               acc_timeToFirstComment d @ pushed (s_firstCommentTime (commentStub p reqs cs)),
             prDetailsMap := mapSet k (commentStub p reqs cs) (prDetailsMap d)\<rparr>)"
proof -
  have first: "c_createdAt (sortBy (\<lambda>a b. c_createdAt a - c_createdAt b) (commentsOf p cs) ! 0)
      = Min (set (map c_createdAt (commentsOf p cs)))"
    using sortBy_key_nth0 [OF assms, of c_createdAt] by simp
  have len: "0 < length (commentsOf p cs)" using assms by simp
  show ?thesis
    unfolding commenterStep_def Let_def first
    using assms
    by (simp add: len commentStub_def requestFor_def nonNeg_def pushed_def split: option.splits)
qed

lemma reviewsView_eq:
  "reviewsView p RR C e d =
    (if reviewsOf p (snd e) = [] then d
     else (countReviewType (latestReviewOf p (snd e)) d)
      \<lparr>prsReviewedSet := setAdd (fst e) (prsReviewedSet d),
       acc_timeToFirstComment :=
         acc_timeToFirstComment d @ pushed (s_firstCommentTime
           (reviewStub p (getOrEmpty RR (fst e)) (getOrEmpty C (fst e)) (snd e))),
       acc_timeToFirstReview :=
         acc_timeToFirstReview d @ pushed (s_firstReviewTime
           (reviewStub p (getOrEmpty RR (fst e)) (getOrEmpty C (fst e)) (snd e))),
       acc_timeToApproval :=
         acc_timeToApproval d @ pushed (s_firstReviewTime
           (reviewStub p (getOrEmpty RR (fst e)) (getOrEmpty C (fst e)) (snd e))),
       prDetailsMap :=
         mapSet (fst e) (reviewStub p (getOrEmpty RR (fst e)) (getOrEmpty C (fst e)) (snd e))
           (prDetailsMap d)\<rparr>)"
  by (simp add: reviewsView_def reviewerStep_eq)

lemma commentsView_eq:
  "commentsView p RR e d =
    (if commentsOf p (snd e) = [] \<or> mapHas (fst e) (prDetailsMap d) then d
     else d\<lparr>acc_timeToFirstComment :=
               acc_timeToFirstComment d @ pushed (s_firstCommentTime
                 (commentStub p (getOrEmpty RR (fst e)) (snd e))),
             prDetailsMap :=
               mapSet (fst e) (commentStub p (getOrEmpty RR (fst e)) (snd e)) (prDetailsMap d)\<rparr>)"
  by (simp add: commentsView_def commenterStep_eq)

lemma getOrEmpty_Cons:
  "getOrEmpty (e # m) k = (if fst e = k then snd e else getOrEmpty m k)"
  by (cases e) (auto simp: getOrEmpty_def mapGet_def)

lemma getOrEmpty_absent: "k \<notin> set (map fst m) \<Longrightarrow> getOrEmpty m k = []"
  by (simp add: getOrEmpty_def mapGet_def map_of_eq_None_iff [THEN iffD2])

lemma reviewsOf_Nil: "reviewsOf p [] = []"
  by (simp add: reviewsOf_def)

lemma commentsOf_Nil: "commentsOf p [] = []"
  by (simp add: commentsOf_def)

subsection \<open>The fields of the accumulator of one person\<close>

lemma prDetailsMap_seed: "prDetailsMap (fold (seedView p) prs d) = prDetailsMap d"
  by (induction prs arbitrary: d) (simp_all add: seedView_def)

lemma prDetailsMap_reviewsView:
  "mapGet (prDetailsMap (reviewsView p RR C e d)) k =
     (if fst e = k \<and> reviewsOf p (snd e) \<noteq> []
      then Some (reviewStub p (getOrEmpty RR k) (getOrEmpty C k) (snd e))
      else mapGet (prDetailsMap d) k)"
  by (simp add: reviewsView_eq countReviewType_def mapGet_mapSet)

lemma prDetailsMap_commentsView:
  "mapGet (prDetailsMap (commentsView p RR e d)) k =
     (if fst e = k \<and> commentsOf p (snd e) \<noteq> [] \<and> mapGet (prDetailsMap d) k = None
      then Some (commentStub p (getOrEmpty RR k) (snd e))
      else mapGet (prDetailsMap d) k)"
  by (auto simp: commentsView_eq mapGet_mapSet mapHas_def)

lemma prDetailsMap_reviews:
  "distinct (map fst R) \<Longrightarrow>
   mapGet (prDetailsMap (fold (reviewsView p RR C) R d)) k =
     (if reviewsOf p (getOrEmpty R k) \<noteq> []
      then Some (reviewStub p (getOrEmpty RR k) (getOrEmpty C k) (getOrEmpty R k))
      else mapGet (prDetailsMap d) k)"
proof (induction R arbitrary: d)
  case Nil
  then show ?case by (simp add: getOrEmpty_def mapGet_def reviewsOf_Nil)
next
  case (Cons e R)
  then have d: "distinct (map fst R)" and ne: "fst e \<notin> set (map fst R)" by auto
  show ?case
  proof (cases "fst e = k")
    case True
    with ne have "getOrEmpty R k = []" by (simp add: getOrEmpty_absent)
    with True show ?thesis
      by (simp add: Cons.IH [OF d] getOrEmpty_Cons reviewsOf_Nil prDetailsMap_reviewsView)
  next
    case False
    then show ?thesis
      by (simp add: Cons.IH [OF d] getOrEmpty_Cons prDetailsMap_reviewsView)
  qed
qed

lemma prDetailsMap_comments:
  "distinct (map fst C) \<Longrightarrow>
   mapGet (prDetailsMap (fold (commentsView p RR) C d)) k =
     (case mapGet (prDetailsMap d) k of
        Some s \<Rightarrow> Some s
      | None \<Rightarrow>
          if commentsOf p (getOrEmpty C k) \<noteq> []
          then Some (commentStub p (getOrEmpty RR k) (getOrEmpty C k))
          else None)"
proof (induction C arbitrary: d)
  case Nil
  then show ?case by (simp add: getOrEmpty_def mapGet_def commentsOf_Nil split: option.splits)
next
  case (Cons e C)
  then have d: "distinct (map fst C)" and ne: "fst e \<notin> set (map fst C)" by auto
  show ?case
  proof (cases "fst e = k")
    case True
    with ne have "getOrEmpty C k = []" by (simp add: getOrEmpty_absent)
    with True show ?thesis
      by (simp add: Cons.IH [OF d] getOrEmpty_Cons commentsOf_Nil prDetailsMap_commentsView
            split: option.splits)
  next
    case False
    then show ?thesis
      by (simp add: Cons.IH [OF d] getOrEmpty_Cons prDetailsMap_commentsView
            split: option.splits)
  qed
qed

lemma prDetailsMap_personView:
  assumes "distinct (map fst R)" and "distinct (map fst C)"
  shows "mapGet (prDetailsMap (personView p prs R RR C)) k = stubOf p R RR C k"
proof -
  have "mapGet (prDetailsMap (fold (seedView p) prs emptyPerson)) k = None"
    by (simp add: prDetailsMap_seed emptyPerson_def mapGet_def)
  then show ?thesis
    unfolding personView_def stubOf_def
    by (simp add: prDetailsMap_comments [OF assms(2)] prDetailsMap_reviews [OF assms(1)])
qed

lemma fold_keeps:
  assumes "\<And>e d. g (f e d) = g d"
  shows "g (fold f xs d) = g d"
  by (induction xs arbitrary: d) (simp_all add: assms)

lemma set_setAdd: "set (setAdd x s) = insert x (set s)"
  by (auto simp: setAdd_def setHas_def)

lemma distinct_setAdd: "distinct s \<Longrightarrow> distinct (setAdd x s)"
  by (auto simp: setAdd_def setHas_def)

lemma set_fold_setAdd: "set (fold setAdd xs s) = set xs \<union> set s"
  by (induction xs arbitrary: s) (auto simp: set_setAdd)

lemma distinct_fold_setAdd: "distinct s \<Longrightarrow> distinct (fold setAdd xs s)"
  by (induction xs arbitrary: s) (simp_all add: distinct_setAdd)

lemma length_setOf: "length (setOf xs) = card (set xs)"
proof -
  have "distinct (setOf xs)" by (simp add: setOf_def distinct_fold_setAdd)
  moreover have "set (setOf xs) = set xs" by (simp add: setOf_def set_fold_setAdd)
  ultimately show ?thesis using distinct_card by metis
qed

text \<open>The PRs opened.\<close>

lemma own_reviewsView: "ownPRNumbers (reviewsView p RR C e d) = ownPRNumbers d"
  by (simp add: reviewsView_eq countReviewType_def)

lemma own_commentsView: "ownPRNumbers (commentsView p RR e d) = ownPRNumbers d"
  by (simp add: commentsView_eq)

lemma own_personView:
  "ownPRNumbers (personView p prs R RR C) = ownPRNumbers (fold (seedView p) prs emptyPerson)"
  unfolding personView_def
  by (simp add: fold_keeps [where g = ownPRNumbers and f = "commentsView p RR", OF own_commentsView]
        fold_keeps [where g = ownPRNumbers and f = "reviewsView p RR C", OF own_reviewsView])

lemma set_own_seed:
  "set (ownPRNumbers (fold (seedView p) prs d)) =
     set (ownPRNumbers d) \<union> number ` {pr \<in> set prs. author pr = p \<and> \<not> isBot p}"
  by (induction prs arbitrary: d) (auto simp: seedView_def set_setAdd)

lemma distinct_own_seed:
  "distinct (ownPRNumbers d) \<Longrightarrow> distinct (ownPRNumbers (fold (seedView p) prs d))"
  by (induction prs arbitrary: d) (simp_all add: seedView_def distinct_setAdd)

lemma set_own_personView:
  "set (ownPRNumbers (personView p prs R RR C)) =
     number ` {pr \<in> set prs. author pr = p \<and> \<not> isBot p}"
  by (simp add: own_personView set_own_seed emptyPerson_def)

lemma distinct_own_personView: "distinct (ownPRNumbers (personView p prs R RR C))"
  by (simp add: own_personView distinct_own_seed emptyPerson_def)

text \<open>The PRs reviewed.\<close>

lemma reviewed_seedView: "prsReviewedSet (seedView p pr d) = prsReviewedSet d"
  by (simp add: seedView_def)

lemma reviewed_commentsView: "prsReviewedSet (commentsView p RR e d) = prsReviewedSet d"
  by (simp add: commentsView_eq)

lemma reviewed_reviewsView:
  "prsReviewedSet (reviewsView p RR C e d) =
     (if reviewsOf p (snd e) = [] then prsReviewedSet d else setAdd (fst e) (prsReviewedSet d))"
  by (simp add: reviewsView_eq countReviewType_def)

lemma set_reviewed_fold:
  "set (prsReviewedSet (fold (reviewsView p RR C) R d)) =
     set (prsReviewedSet d) \<union> fst ` {e \<in> set R. reviewsOf p (snd e) \<noteq> []}"
  by (induction R arbitrary: d) (auto simp: reviewed_reviewsView set_setAdd)

lemma distinct_reviewed_fold:
  "distinct (prsReviewedSet d) \<Longrightarrow> distinct (prsReviewedSet (fold (reviewsView p RR C) R d))"
  by (induction R arbitrary: d) (simp_all add: reviewed_reviewsView distinct_setAdd)

lemma reviewed_seed_fold: "prsReviewedSet (fold (seedView p) prs emptyPerson) = []"
  by (simp add: fold_keeps [where g = prsReviewedSet and f = "seedView p", OF reviewed_seedView]
        emptyPerson_def)

lemma set_reviewed_personView:
  "set (prsReviewedSet (personView p prs R RR C)) =
     fst ` {e \<in> set R. reviewsOf p (snd e) \<noteq> []}"
  unfolding personView_def
  by (simp add: fold_keeps [where g = prsReviewedSet and f = "commentsView p RR",
          OF reviewed_commentsView] set_reviewed_fold reviewed_seed_fold)

lemma distinct_reviewed_personView: "distinct (prsReviewedSet (personView p prs R RR C))"
  unfolding personView_def
  by (simp add: fold_keeps [where g = prsReviewedSet and f = "commentsView p RR",
          OF reviewed_commentsView] distinct_reviewed_fold reviewed_seed_fold)

text \<open>The tally of review outcomes.\<close>

lemma tally_seedView:
  "reviewsApproved (seedView p pr d) = reviewsApproved d"
  "reviewsCommented (seedView p pr d) = reviewsCommented d"
  "reviewsChangesRequested (seedView p pr d) = reviewsChangesRequested d"
  by (simp_all add: seedView_def)

lemma tally_commentsView:
  "reviewsApproved (commentsView p RR e d) = reviewsApproved d"
  "reviewsCommented (commentsView p RR e d) = reviewsCommented d"
  "reviewsChangesRequested (commentsView p RR e d) = reviewsChangesRequested d"
  by (simp_all add: commentsView_eq)

lemma tally_reviewsView:
  "reviewsApproved (reviewsView p RR C e d) = reviewsApproved d +
     (if reviewsOf p (snd e) \<noteq> [] \<and> r_state (latestReviewOf p (snd e)) = APPROVED then 1 else 0)"
  "reviewsCommented (reviewsView p RR C e d) = reviewsCommented d +
     (if reviewsOf p (snd e) \<noteq> [] \<and> r_state (latestReviewOf p (snd e)) = COMMENTED then 1 else 0)"
  "reviewsChangesRequested (reviewsView p RR C e d) = reviewsChangesRequested d +
     (if reviewsOf p (snd e) \<noteq> [] \<and> r_state (latestReviewOf p (snd e)) = CHANGES_REQUESTED
      then 1 else 0)"
  by (simp_all add: reviewsView_eq countReviewType_def)

lemma tally_fold:
  "reviewsApproved (fold (reviewsView p RR C) R d) = reviewsApproved d +
     length (filter (\<lambda>e. reviewsOf p (snd e) \<noteq> [] \<and> r_state (latestReviewOf p (snd e)) = APPROVED) R)"
  "reviewsCommented (fold (reviewsView p RR C) R d) = reviewsCommented d +
     length (filter (\<lambda>e. reviewsOf p (snd e) \<noteq> [] \<and> r_state (latestReviewOf p (snd e)) = COMMENTED) R)"
  "reviewsChangesRequested (fold (reviewsView p RR C) R d) = reviewsChangesRequested d +
     length (filter (\<lambda>e. reviewsOf p (snd e) \<noteq> []
                         \<and> r_state (latestReviewOf p (snd e)) = CHANGES_REQUESTED) R)"
  by (induction R arbitrary: d) (simp_all add: tally_reviewsView)

lemma tally_personView:
  "reviewsApproved (personView p prs R RR C) =
     length (filter (\<lambda>e. reviewsOf p (snd e) \<noteq> [] \<and> r_state (latestReviewOf p (snd e)) = APPROVED) R)"
  "reviewsCommented (personView p prs R RR C) =
     length (filter (\<lambda>e. reviewsOf p (snd e) \<noteq> [] \<and> r_state (latestReviewOf p (snd e)) = COMMENTED) R)"
  "reviewsChangesRequested (personView p prs R RR C) =
     length (filter (\<lambda>e. reviewsOf p (snd e) \<noteq> []
                         \<and> r_state (latestReviewOf p (snd e)) = CHANGES_REQUESTED) R)"
  unfolding personView_def
  by (simp_all add:
        fold_keeps [where g = reviewsApproved and f = "commentsView p RR", OF tally_commentsView(1)]
        fold_keeps [where g = reviewsCommented and f = "commentsView p RR", OF tally_commentsView(2)]
        fold_keeps [where g = reviewsChangesRequested and f = "commentsView p RR",
          OF tally_commentsView(3)]
        fold_keeps [where g = reviewsApproved and f = "seedView p", OF tally_seedView(1)]
        fold_keeps [where g = reviewsCommented and f = "seedView p", OF tally_seedView(2)]
        fold_keeps [where g = reviewsChangesRequested and f = "seedView p", OF tally_seedView(3)]
        tally_fold emptyPerson_def)

text \<open>The PRs opened, counted.\<close>

lemma opened_seed_fold:
  "acc_prsOpened (fold (seedView p) prs d) =
     acc_prsOpened d + length (filter (\<lambda>pr. author pr = p \<and> \<not> isBot p) prs)"
  by (induction prs arbitrary: d) (auto simp: seedView_def)

lemma opened_reviewsView: "acc_prsOpened (reviewsView p RR C e d) = acc_prsOpened d"
  by (simp add: reviewsView_eq countReviewType_def)

lemma opened_commentsView: "acc_prsOpened (commentsView p RR e d) = acc_prsOpened d"
  by (simp add: commentsView_eq)

lemma opened_personView:
  "acc_prsOpened (personView p prs R RR C) =
     length (filter (\<lambda>pr. author pr = p \<and> \<not> isBot p) prs)"
  unfolding personView_def
  by (simp add:
        fold_keeps [where g = acc_prsOpened and f = "commentsView p RR", OF opened_commentsView]
        fold_keeps [where g = acc_prsOpened and f = "reviewsView p RR C", OF opened_reviewsView]
        opened_seed_fold emptyPerson_def)

text \<open>The three timing arrays.\<close>

lemma times_seedView:
  "acc_timeToFirstComment (seedView p pr d) = acc_timeToFirstComment d"
  "acc_timeToFirstReview (seedView p pr d) = acc_timeToFirstReview d"
  "acc_timeToApproval (seedView p pr d) = acc_timeToApproval d"
  by (simp_all add: seedView_def)

lemma times_seed_fold:
  "acc_timeToFirstComment (fold (seedView p) prs emptyPerson) = []"
  "acc_timeToFirstReview (fold (seedView p) prs emptyPerson) = []"
  "acc_timeToApproval (fold (seedView p) prs emptyPerson) = []"
  by (simp_all add:
        fold_keeps [where g = acc_timeToFirstComment and f = "seedView p", OF times_seedView(1)]
        fold_keeps [where g = acc_timeToFirstReview and f = "seedView p", OF times_seedView(2)]
        fold_keeps [where g = acc_timeToApproval and f = "seedView p", OF times_seedView(3)]
        emptyPerson_def)

lemma times_reviewsView:
  "acc_timeToFirstComment (reviewsView p RR C e d) = acc_timeToFirstComment d @
     (if reviewsOf p (snd e) = [] then []
      else pushed (s_firstCommentTime
             (reviewStub p (getOrEmpty RR (fst e)) (getOrEmpty C (fst e)) (snd e))))"
  "acc_timeToFirstReview (reviewsView p RR C e d) = acc_timeToFirstReview d @
     (if reviewsOf p (snd e) = [] then []
      else pushed (s_firstReviewTime
             (reviewStub p (getOrEmpty RR (fst e)) (getOrEmpty C (fst e)) (snd e))))"
  "acc_timeToApproval (reviewsView p RR C e d) = acc_timeToApproval d @
     (if reviewsOf p (snd e) = [] then []
      else pushed (s_firstReviewTime
             (reviewStub p (getOrEmpty RR (fst e)) (getOrEmpty C (fst e)) (snd e))))"
  by (simp_all add: reviewsView_eq countReviewType_def)

lemma times_reviews_fold:
  "acc_timeToFirstComment (fold (reviewsView p RR C) R d) =
     acc_timeToFirstComment d @ reviewTimesOf s_firstCommentTime p R RR C"
  "acc_timeToFirstReview (fold (reviewsView p RR C) R d) =
     acc_timeToFirstReview d @ reviewTimesOf s_firstReviewTime p R RR C"
  "acc_timeToApproval (fold (reviewsView p RR C) R d) =
     acc_timeToApproval d @ reviewTimesOf s_firstReviewTime p R RR C"
  by (induction R arbitrary: d) (simp_all add: times_reviewsView reviewTimesOf_def)

lemma times_commentsView:
  "acc_timeToFirstComment (commentsView p RR e d) = acc_timeToFirstComment d @
     (if commentsOf p (snd e) = [] \<or> mapHas (fst e) (prDetailsMap d) then []
      else pushed (s_firstCommentTime (commentStub p (getOrEmpty RR (fst e)) (snd e))))"
  "acc_timeToFirstReview (commentsView p RR e d) = acc_timeToFirstReview d"
  "acc_timeToApproval (commentsView p RR e d) = acc_timeToApproval d"
  by (simp_all add: commentsView_eq)

lemma mapHas_commentsView_other:
  "fst e \<noteq> k \<Longrightarrow> mapHas k (prDetailsMap (commentsView p RR e d)) = mapHas k (prDetailsMap d)"
  by (simp add: mapHas_def prDetailsMap_commentsView)

lemma times_comments_fold:
  "distinct (map fst C) \<Longrightarrow>
   acc_timeToFirstComment (fold (commentsView p RR) C d) =
     acc_timeToFirstComment d @
     concat (map (\<lambda>e. if commentsOf p (snd e) = [] \<or> mapHas (fst e) (prDetailsMap d) then []
                       else pushed (s_firstCommentTime
                              (commentStub p (getOrEmpty RR (fst e)) (snd e)))) C)"
proof (induction C arbitrary: d)
  case Nil
  then show ?case by simp
next
  case (Cons e C)
  then have dC: "distinct (map fst C)" and ne: "fst e \<notin> set (map fst C)" by auto
  have same: "map (\<lambda>e'. if commentsOf p (snd e') = []
                            \<or> mapHas (fst e') (prDetailsMap (commentsView p RR e d)) then []
                       else pushed (s_firstCommentTime
                              (commentStub p (getOrEmpty RR (fst e')) (snd e')))) C
      = map (\<lambda>e'. if commentsOf p (snd e') = [] \<or> mapHas (fst e') (prDetailsMap d) then []
                       else pushed (s_firstCommentTime
                              (commentStub p (getOrEmpty RR (fst e')) (snd e')))) C"
  proof (rule map_cong [OF refl])
    fix e' assume "e' \<in> set C"
    with ne have "fst e \<noteq> fst e'" by auto
    then show "(if commentsOf p (snd e') = []
                  \<or> mapHas (fst e') (prDetailsMap (commentsView p RR e d)) then []
               else pushed (s_firstCommentTime (commentStub p (getOrEmpty RR (fst e')) (snd e'))))
        = (if commentsOf p (snd e') = [] \<or> mapHas (fst e') (prDetailsMap d) then []
           else pushed (s_firstCommentTime (commentStub p (getOrEmpty RR (fst e')) (snd e'))))"
      by (simp add: mapHas_commentsView_other)
  qed
  show ?case
    by (simp only: fold_simps Cons.IH [OF dC] same times_commentsView(1)) simp
qed

lemma times_personView:
  assumes "distinct (map fst R)" and "distinct (map fst C)"
  shows "acc_timeToFirstComment (personView p prs R RR C) =
           reviewTimesOf s_firstCommentTime p R RR C @ commentTimesOf p R RR C"
    and "acc_timeToFirstReview (personView p prs R RR C) = reviewTimesOf s_firstReviewTime p R RR C"
    and "acc_timeToApproval (personView p prs R RR C) = reviewTimesOf s_firstReviewTime p R RR C"
proof -
  let ?d1 = "fold (seedView p) prs emptyPerson"
  let ?d2 = "fold (reviewsView p RR C) R ?d1"
  have has: "mapHas k (prDetailsMap ?d2) \<longleftrightarrow> reviewsOf p (getOrEmpty R k) \<noteq> []" for k
  proof -
    have "mapGet (prDetailsMap ?d1) k = None"
      by (simp add: prDetailsMap_seed emptyPerson_def mapGet_def)
    then show ?thesis
      by (simp add: mapHas_def prDetailsMap_reviews [OF assms(1)])
  qed
  show "acc_timeToFirstComment (personView p prs R RR C) =
           reviewTimesOf s_firstCommentTime p R RR C @ commentTimesOf p R RR C"
    unfolding personView_def
    by (simp add: times_comments_fold [OF assms(2)] has times_reviews_fold times_seed_fold
          commentTimesOf_def)
  show "acc_timeToFirstReview (personView p prs R RR C) = reviewTimesOf s_firstReviewTime p R RR C"
    unfolding personView_def
    by (simp add: fold_keeps [where g = acc_timeToFirstReview and f = "commentsView p RR",
            OF times_commentsView(2)] times_reviews_fold times_seed_fold)
  show "acc_timeToApproval (personView p prs R RR C) = reviewTimesOf s_firstReviewTime p R RR C"
    unfolding personView_def
    by (simp add: fold_keeps [where g = acc_timeToApproval and f = "commentsView p RR",
            OF times_commentsView(3)] times_reviews_fold times_seed_fold)
qed

subsection \<open>The rows of the detail list\<close>

lemma row_reviewStatus:
  "reviewStatus (fst (buildDetail env R d pr n)) =
     (if number pr \<in> set (ownPRNumbers d) then OWN_PR
      else (case mapGet (prDetailsMap d) (number pr) of
              None \<Rightarrow> NOT_REVIEWED
            | Some s \<Rightarrow> s_reviewStatus s))"
  by (simp add: buildDetail_def Let_def setHas_def split: option.splits prod.splits)

lemma calculateStats_row:
  assumes "ps \<in> set (calculateStats env prs R RR C)" and "i < length prs"
  shows "\<exists>n. prDetails ps ! i =
           fst (buildDetail env R (personView (person ps) prs R RR C) (prs ! i) n)"
proof -
  from calculateStats_elem [OF assms(1)] obtain n where
    "ps = personStats (length prs) (person ps) (personView (person ps) prs R RR C)
            (fst (buildDetails env R (personView (person ps) prs R RR C) prs n))"
    by blast
  then have "prDetails ps = fst (buildDetails env R (personView (person ps) prs R RR C) prs n)"
    using prDetails_personStats by metis
  with buildDetails_nth [OF assms(2), of env R "personView (person ps) prs R RR C" n]
  show ?thesis by simp
qed

lemma stub_status_reviews:
  assumes "\<forall>k s. mapGet (prDetailsMap d) k = Some s \<longrightarrow> s_reviewStatus s \<noteq> OWN_PR"
  shows "\<forall>k s. mapGet (prDetailsMap (fold (reviewsView p RR C) R d)) k = Some s
           \<longrightarrow> s_reviewStatus s \<noteq> OWN_PR"
  using assms
proof (induction R arbitrary: d)
  case Nil
  then show ?case by simp
next
  case (Cons e R)
  have "\<forall>k s. mapGet (prDetailsMap (reviewsView p RR C e d)) k = Some s
          \<longrightarrow> s_reviewStatus s \<noteq> OWN_PR"
    using Cons.prems by (auto simp: prDetailsMap_reviewsView reviewStub_def split: if_splits)
  from Cons.IH [OF this] show ?case by simp
qed

lemma stub_status_comments:
  assumes "\<forall>k s. mapGet (prDetailsMap d) k = Some s \<longrightarrow> s_reviewStatus s \<noteq> OWN_PR"
  shows "\<forall>k s. mapGet (prDetailsMap (fold (commentsView p RR) C d)) k = Some s
           \<longrightarrow> s_reviewStatus s \<noteq> OWN_PR"
  using assms
proof (induction C arbitrary: d)
  case Nil
  then show ?case by simp
next
  case (Cons e C)
  have "\<forall>k s. mapGet (prDetailsMap (commentsView p RR e d)) k = Some s
          \<longrightarrow> s_reviewStatus s \<noteq> OWN_PR"
    using Cons.prems by (auto simp: prDetailsMap_commentsView commentStub_def split: if_splits)
  from Cons.IH [OF this] show ?case by simp
qed

lemma stub_status_personView:
  "mapGet (prDetailsMap (personView p prs R RR C)) k = Some s \<Longrightarrow> s_reviewStatus s \<noteq> OWN_PR"
proof -
  have "\<forall>k s. mapGet (prDetailsMap (fold (seedView p) prs emptyPerson)) k = Some s
          \<longrightarrow> s_reviewStatus s \<noteq> OWN_PR"
    by (simp add: prDetailsMap_seed emptyPerson_def mapGet_def)
  from stub_status_comments [OF stub_status_reviews [OF this]]
  show "mapGet (prDetailsMap (personView p prs R RR C)) k = Some s \<Longrightarrow> s_reviewStatus s \<noteq> OWN_PR"
    unfolding personView_def by blast
qed

lemma own_number_iff:
  assumes "distinct (map number prs)" and "i < length prs" and "\<not> isBot p"
  shows "number (prs ! i) \<in> set (ownPRNumbers (personView p prs R RR C))
           \<longleftrightarrow> author (prs ! i) = p"
proof -
  from assms(1) have inj: "inj_on number (set prs)" by (simp add: distinct_map)
  from assms(2) have mem: "prs ! i \<in> set prs" by simp
  show ?thesis
    using inj mem assms(3) by (auto simp: set_own_personView inj_on_def)
qed

lemma stubOf_status:
  "(case stubOf p R RR C k of None \<Rightarrow> NOT_REVIEWED | Some s \<Rightarrow> s_reviewStatus s) =
     (if reviewsOf p (getOrEmpty R k) \<noteq> []
        then Reviewed (r_state (latestReviewOf p (getOrEmpty R k)))
      else if commentsOf p (getOrEmpty C k) \<noteq> [] then COMMENTED_ONLY
      else NOT_REVIEWED)"
  by (simp add: stubOf_def reviewStub_def commentStub_def)

lemma sample_result:
  "length (calculateStats sampleEnv samplePRs sampleReviews sampleRequests sampleComments) = 2"
  "person (calculateStats sampleEnv samplePRs sampleReviews sampleRequests sampleComments ! 0)
     = ''alice''"
  "person (calculateStats sampleEnv samplePRs sampleReviews sampleRequests sampleComments ! 1)
     = ''bob''"
proof -
  let ?out = "calculateStats sampleEnv samplePRs sampleReviews sampleRequests sampleComments"
  have "length (map person ?out) = 2"
    by (simp only: sample_persons) simp
  then show len: "length ?out = 2" by simp
  have "map person ?out ! 0 = ''alice''" "map person ?out ! 1 = ''bob''"
    by (simp_all only: sample_persons) simp_all
  with len show "person (?out ! 0) = ''alice''" "person (?out ! 1) = ''bob''"
    by simp_all
qed

lemma sample_distinct:
  "distinct (map number samplePRs)" "distinct (map fst sampleReviews)"
  "distinct (map fst sampleComments)" "length samplePRs = 2"
  by (simp_all add: samplePRs_def sampleReviews_def sampleComments_def)

lemma sample_bob_review:
  "reviewsOf ''bob'' (getOrEmpty sampleReviews (number (samplePRs ! 0))) \<noteq> []"
  "r_state (latestReviewOf ''bob'' (getOrEmpty sampleReviews (number (samplePRs ! 0)))) = APPROVED"
  "author (samplePRs ! 0) = ''alice''"
  by code_simp+

lemma reviewsOf_nonbot: "\<not> isBot p \<Longrightarrow> reviewsOf p rs = filter (\<lambda>r. reviewer r = p) rs"
  by (auto simp: reviewsOf_def intro: filter_cong)

lemma commentsOf_nonbot: "\<not> isBot p \<Longrightarrow> commentsOf p cs = filter (\<lambda>c. commenter c = p) cs"
  by (auto simp: commentsOf_def intro: filter_cong)

lemma latestReviewOf_mem: "reviewsOf p rs \<noteq> [] \<Longrightarrow> latestReviewOf p rs \<in> set (reviewsOf p rs)"
  by (simp add: latestReviewOf_def sortedReviewsOf_def sortBy_last_mem)

lemma latestReviewOf_max:
  "r \<in> set (reviewsOf p rs) \<Longrightarrow> submittedAt r \<le> submittedAt (latestReviewOf p rs)"
proof -
  assume r: "r \<in> set (reviewsOf p rs)"
  then have "reviewsOf p rs \<noteq> []" by auto
  from sortBy_key_last_max [OF this r, of submittedAt] show ?thesis
    by (simp add: latestReviewOf_def sortedReviewsOf_def)
qed

lemma tally_partition:
  "length (filter (\<lambda>e. P e \<and> st e = APPROVED) xs)
     + length (filter (\<lambda>e. P e \<and> st e = COMMENTED) xs)
     + length (filter (\<lambda>e. P e \<and> st e = CHANGES_REQUESTED) xs)
   = length (filter P xs)"
proof (induction xs)
  case Nil
  then show ?case by simp
next
  case (Cons x xs)
  then show ?case by (cases "st x") auto
qed

lemma personStats_tally:
  "approved (reviewMetrics (personStats t p d ds)) = reviewsApproved d"
  "commented (reviewMetrics (personStats t p d ds)) = reviewsCommented d"
  "changesRequested (reviewMetrics (personStats t p d ds)) = reviewsChangesRequested d"
  "totalReviewsGiven (personStats t p d ds) =
     reviewsApproved d + reviewsCommented d + reviewsChangesRequested d"
  by (simp_all add: personStats_def Let_def)

lemma flip_persons:
  "map person (calculateStats sampleEnv samplePRs flipReviews sampleRequests sampleComments)
     = [''alice'', ''bob'']"
  by code_simp

lemma flip_bob_tally:
  "length (filter (\<lambda>e. filter (\<lambda>r. reviewer r = ''bob'') (snd e) \<noteq> []
            \<and> r_state (latestReviewOf ''bob'' (snd e)) = APPROVED) flipReviews) = 1"
  "length (filter (\<lambda>e. filter (\<lambda>r. reviewer r = ''bob'') (snd e) \<noteq> []
            \<and> r_state (latestReviewOf ''bob'' (snd e)) = COMMENTED) flipReviews) = 0"
  "length (filter (\<lambda>e. filter (\<lambda>r. reviewer r = ''bob'') (snd e) \<noteq> []
            \<and> r_state (latestReviewOf ''bob'' (snd e)) = CHANGES_REQUESTED) flipReviews) = 0"
  by code_simp+

lemma set_uniqueReviewers:
  "set (fold (\<lambda>review s. if \<not> isBot (reviewer review) then setAdd (reviewer review) s else s)
          rs s0) = set s0 \<union> reviewer ` {r \<in> set rs. \<not> isBot (reviewer r)}"
  by (induction rs arbitrary: s0) (auto simp: set_setAdd)

lemma distinct_uniqueReviewers:
  "distinct s0 \<Longrightarrow>
   distinct (fold (\<lambda>review s. if \<not> isBot (reviewer review) then setAdd (reviewer review) s else s)
               rs s0)"
  by (induction rs arbitrary: s0) (simp_all add: distinct_setAdd)

lemma length_uniqueReviewers:
  "length (fold (\<lambda>review s. if \<not> isBot (reviewer review) then setAdd (reviewer review) s else s)
             rs []) = card (reviewer ` {r \<in> set rs. \<not> isBot (reviewer r)})"
proof -
  let ?u = "fold (\<lambda>review s. if \<not> isBot (reviewer review) then setAdd (reviewer review) s else s)
              rs []"
  have "distinct ?u" by (simp add: distinct_uniqueReviewers)
  then have "length ?u = card (set ?u)" by (simp add: distinct_card)
  then show ?thesis by (simp add: set_uniqueReviewers)
qed

lemma row_reviewerCount:
  "reviewerCount (fst (buildDetail env R d pr n)) =
     card (reviewer ` {r \<in> set (getOrEmpty R (number pr)). \<not> isBot (reviewer r)})"
  by (simp add: buildDetail_def Let_def length_uniqueReviewers split: option.splits prod.splits)

lemma commented_persons:
  "map person (calculateStats sampleEnv samplePRs commentedReviews sampleRequests sampleComments)
     = [''alice'', ''bob'']"
  by code_simp

subsection \<open>The summary numbers\<close>

lemma personStats_summary:
  "eligiblePRsForReview (personStats t p d ds) = int t - int (length (ownPRNumbers d))"
  "uniquePRsReviewed (personStats t p d ds) =
     card {k \<in> set (prsReviewedSet d). k \<notin> set (ownPRNumbers d)}"
  "reviewParticipationRate (personStats t p d ds) =
     (if int t - int (length (ownPRNumbers d)) > 0
      then (of_nat (card {k \<in> set (prsReviewedSet d). k \<notin> set (ownPRNumbers d)})
              / of_int (int t - int (length (ownPRNumbers d)))) * 100
      else 0)"
  by (simp_all add: personStats_def Let_def length_setOf setHas_def)

lemma length_own_personView:
  assumes "distinct (map number prs)" and "\<not> isBot p"
  shows "length (ownPRNumbers (personView p prs R RR C)) =
           length (filter (\<lambda>pr. author pr = p) prs)"
proof -
  from assms(1) have inj: "inj_on number (set prs)" and dp: "distinct prs"
    by (simp_all add: distinct_map)
  have "length (ownPRNumbers (personView p prs R RR C)) =
          card (set (ownPRNumbers (personView p prs R RR C)))"
    by (simp add: distinct_card distinct_own_personView)
  also have "\<dots> = card (number ` {pr \<in> set prs. author pr = p})"
    using assms(2) by (simp add: set_own_personView)
  also have "\<dots> = card {pr \<in> set prs. author pr = p}"
    by (rule card_image) (rule inj_on_subset [OF inj], auto)
  also have "\<dots> = card (set (filter (\<lambda>pr. author pr = p) prs))"
    by simp
  also have "\<dots> = length (filter (\<lambda>pr. author pr = p) prs)"
    by (rule distinct_card) (simp add: dp)
  finally show ?thesis .
qed

lemma reviewed_not_own_personView:
  assumes "\<not> isBot p"
  shows "{k \<in> set (prsReviewedSet (personView p prs R RR C)).
            k \<notin> set (ownPRNumbers (personView p prs R RR C))} =
         {k. (\<exists>rs. (k, rs) \<in> set R \<and> (\<exists>r \<in> set rs. reviewer r = p)) \<and>
             k \<notin> number ` {pr \<in> set prs. author pr = p}}"
proof -
  have ne: "reviewsOf p rs \<noteq> [] \<longleftrightarrow> (\<exists>r \<in> set rs. reviewer r = p)" for rs
    using assms by (auto simp: reviewsOf_nonbot filter_empty_conv)
  have rv: "set (prsReviewedSet (personView p prs R RR C)) =
      {k. \<exists>rs. (k, rs) \<in> set R \<and> (\<exists>r \<in> set rs. reviewer r = p)}"
    unfolding set_reviewed_personView ne by force
  show ?thesis
    unfolding rv using assms by (auto simp: set_own_personView)
qed

lemma commented_bob_summary:
  "filter isFormal (concat (map snd commentedReviews)) = []"
  "person (calculateStats sampleEnv samplePRs commentedReviews sampleRequests sampleComments ! 1)
     = ''bob''"
  "uniquePRsReviewed
     (calculateStats sampleEnv samplePRs commentedReviews sampleRequests sampleComments ! 1) = 1"
  by code_simp+

lemma solo_persons:
  "map person (calculateStats sampleEnv [samplePRs ! 0] [] [] []) = [''alice'']"
  by code_simp

subsection \<open>Independence of the clock\<close>

lemma eraseDetail_buildDetail:
  "eraseDetail pr (fst (buildDetail (env\<lparr>now := c\<rparr>) R d pr n)) =
   eraseDetail pr (fst (buildDetail (env\<lparr>now := c'\<rparr>) R d pr n'))"
  by (simp add: buildDetail_def eraseDetail_def Let_def split: option.splits)

lemma eraseRows_buildDetails:
  "map2 eraseDetail prs (fst (buildDetails (env\<lparr>now := c\<rparr>) R d prs n)) =
   map2 eraseDetail prs (fst (buildDetails (env\<lparr>now := c'\<rparr>) R d prs n'))"
proof (induction prs arbitrary: n n')
  case Nil
  then show ?case by simp
next
  case (Cons pr prs)
  obtain det n1 where a: "buildDetail (env\<lparr>now := c\<rparr>) R d pr n = (det, n1)"
    by (cases "buildDetail (env\<lparr>now := c\<rparr>) R d pr n")
  obtain det' n1' where a': "buildDetail (env\<lparr>now := c'\<rparr>) R d pr n' = (det', n1')"
    by (cases "buildDetail (env\<lparr>now := c'\<rparr>) R d pr n'")
  obtain dets n2 where b: "buildDetails (env\<lparr>now := c\<rparr>) R d prs n1 = (dets, n2)"
    by (cases "buildDetails (env\<lparr>now := c\<rparr>) R d prs n1")
  obtain dets' n2' where b': "buildDetails (env\<lparr>now := c'\<rparr>) R d prs n1' = (dets', n2')"
    by (cases "buildDetails (env\<lparr>now := c'\<rparr>) R d prs n1'")
  from eraseDetail_buildDetail [where pr = pr and env = env and c = c and R = R and d = d
      and n = n and c' = c' and n' = n'] a a'
  have h: "eraseDetail pr det = eraseDetail pr det'" by simp
  from Cons.IH [of n1 n1'] b b'
  have t: "map2 eraseDetail prs dets = map2 eraseDetail prs dets'" by simp
  show ?case using a a' b b' h t by simp
qed

lemma eraseClock_personStats:
  "eraseClock prs (personStats t p d ds) = personStats t p d (map2 eraseDetail prs ds)"
  by (simp add: eraseClock_def personStats_def Let_def)

lemma eraseClock_buildStats:
  "map (eraseClock prs) (buildStats (env\<lparr>now := c\<rparr>) prs R m n) =
   map (eraseClock prs) (buildStats (env\<lparr>now := c'\<rparr>) prs R m n')"
proof (induction m arbitrary: n n')
  case Nil
  then show ?case by simp
next
  case (Cons e m)
  obtain ds n1 where a: "buildDetails (env\<lparr>now := c\<rparr>) R (snd e) prs n = (ds, n1)"
    by (cases "buildDetails (env\<lparr>now := c\<rparr>) R (snd e) prs n")
  obtain ds' n1' where a': "buildDetails (env\<lparr>now := c'\<rparr>) R (snd e) prs n' = (ds', n1')"
    by (cases "buildDetails (env\<lparr>now := c'\<rparr>) R (snd e) prs n'")
  from eraseRows_buildDetails [where prs = prs and env = env and c = c and R = R
      and d = "snd e" and n = n and c' = c' and n' = n'] a a'
  have h: "map2 eraseDetail prs ds = map2 eraseDetail prs ds'" by simp
  show ?case
    using a a' h Cons.IH [of n1 n1'] by (simp add: eraseClock_personStats)
qed

lemma map_insertBy:
  assumes "\<And>x y. cmp (f x) (f y) = cmp x y"
  shows "map f (insertBy cmp x ys) = insertBy cmp (f x) (map f ys)"
  by (induction ys) (simp_all add: assms)

lemma map_sortBy:
  assumes "\<And>x y. cmp (f x) (f y) = cmp x y"
  shows "map f (sortBy cmp xs) = sortBy cmp (map f xs)"
  by (induction xs) (simp_all add: sortBy_def map_insertBy [of cmp f, OF assms])

lemma compareStats_eraseClock:
  "compareStats env (eraseClock prs a) (eraseClock prs b) = compareStats env a b"
  by (simp add: compareStats_def eraseClock_def)

lemma compareStats_now: "compareStats (env\<lparr>now := c\<rparr>) = compareStats env"
  by (simp add: compareStats_def fun_eq_iff)

lemma person_eraseClock: "person (eraseClock prs ps) = person ps"
  by (simp add: eraseClock_def)

lemma clock_persons:
  "map person (calculateStats laterEnv samplePRs sampleReviews sampleRequests sampleComments)
     = [''alice'', ''bob'']"
  by code_simp

subsection \<open>Elapsed times, stored entries and rows\<close>

lemma firstFormalOf_Nil: "reviewsOf p rs = [] \<Longrightarrow> firstFormalOf p rs = None"
  by (simp add: firstFormalOf_def sortedReviewsOf_def sortBy_def)

lemma stubOf_firstCommentTime:
  "(case stubOf p R RR C k of None \<Rightarrow> None | Some s \<Rightarrow> s_firstCommentTime s) =
     (case firstCommentElapsed p R RR C k of None \<Rightarrow> None | Some t \<Rightarrow> nonNeg t)"
  by (simp add: stubOf_def reviewStub_def commentStub_def firstCommentElapsed_def
        split: option.splits)

lemma stubOf_firstReviewTime:
  "(case stubOf p R RR C k of None \<Rightarrow> None | Some s \<Rightarrow> s_firstReviewTime s) =
     (case firstReviewElapsed p R RR k of None \<Rightarrow> None | Some t \<Rightarrow> nonNeg t)"
proof (cases "reviewsOf p (getOrEmpty R k) = []")
  case True
  then show ?thesis
    by (simp add: stubOf_def commentStub_def firstReviewElapsed_def firstFormalOf_Nil
          split: option.splits)
next
  case False
  then show ?thesis
    by (simp add: stubOf_def reviewStub_def firstReviewElapsed_def split: option.splits)
qed

lemma orNull_nonNeg:
  "orNull (case e of None \<Rightarrow> None | Some t \<Rightarrow> nonNeg t) =
     (case e of None \<Rightarrow> None | Some t \<Rightarrow> if 0 < t then Some t else None)"
  by (auto simp: orNull_def nonNeg_def split: option.splits)

lemma row_times:
  "firstCommentTime (fst (buildDetail env R d pr n)) =
     orNull (case mapGet (prDetailsMap d) (number pr) of
               None \<Rightarrow> None | Some s \<Rightarrow> s_firstCommentTime s)"
  "firstReviewTime (fst (buildDetail env R d pr n)) =
     orNull (case mapGet (prDetailsMap d) (number pr) of
               None \<Rightarrow> None | Some s \<Rightarrow> s_firstReviewTime s)"
  by (simp_all add: buildDetail_def Let_def split: option.splits prod.splits)

lemma calculateStats_row_times:
  assumes "distinct (map fst R)" and "distinct (map fst C)"
    and "ps \<in> set (calculateStats env prs R RR C)" and "i < length prs"
  shows "firstCommentTime (prDetails ps ! i) =
           (case firstCommentElapsed (person ps) R RR C (number (prs ! i)) of
              None \<Rightarrow> None | Some t \<Rightarrow> if 0 < t then Some t else None)"
    and "firstReviewTime (prDetails ps ! i) =
           (case firstReviewElapsed (person ps) R RR (number (prs ! i)) of
              None \<Rightarrow> None | Some t \<Rightarrow> if 0 < t then Some t else None)"
proof -
  let ?d = "personView (person ps) prs R RR C"
  from calculateStats_row [OF assms(3,4)] obtain n where
    row: "prDetails ps ! i = fst (buildDetail env R ?d (prs ! i) n)" by blast
  have stub: "mapGet (prDetailsMap ?d) (number (prs ! i)) =
      stubOf (person ps) R RR C (number (prs ! i))"
    by (rule prDetailsMap_personView [OF assms(1,2)])
  show "firstCommentTime (prDetails ps ! i) =
           (case firstCommentElapsed (person ps) R RR C (number (prs ! i)) of
              None \<Rightarrow> None | Some t \<Rightarrow> if 0 < t then Some t else None)"
    by (simp only: row row_times stub stubOf_firstCommentTime orNull_nonNeg)
  show "firstReviewTime (prDetails ps ! i) =
           (case firstReviewElapsed (person ps) R RR (number (prs ! i)) of
              None \<Rightarrow> None | Some t \<Rightarrow> if 0 < t then Some t else None)"
    by (simp only: row row_times stub stubOf_firstReviewTime orNull_nonNeg)
qed

lemma calculateStats_row_status:
  assumes "distinct (map number prs)" and "distinct (map fst R)" and "distinct (map fst C)"
    and "ps \<in> set (calculateStats env prs R RR C)" and "i < length prs"
  shows "reviewStatus (prDetails ps ! i) =
     (if author (prs ! i) = person ps then OWN_PR
      else if reviewsOf (person ps) (getOrEmpty R (number (prs ! i))) \<noteq> []
        then Reviewed (r_state (latestReviewOf (person ps) (getOrEmpty R (number (prs ! i)))))
      else if commentsOf (person ps) (getOrEmpty C (number (prs ! i))) \<noteq> [] then COMMENTED_ONLY
      else NOT_REVIEWED)"
proof -
  let ?p = "person ps"
  let ?d = "personView ?p prs R RR C"
  let ?k = "number (prs ! i)"
  from calculateStats_elem [OF assms(4)] have nb: "\<not> isBot ?p" by blast
  from calculateStats_row [OF assms(4,5)] obtain n where
    row: "prDetails ps ! i = fst (buildDetail env R ?d (prs ! i) n)" by blast
  have own: "?k \<in> set (ownPRNumbers ?d) \<longleftrightarrow> author (prs ! i) = ?p"
    by (rule own_number_iff [OF assms(1) assms(5) nb])
  have stub: "mapGet (prDetailsMap ?d) ?k = stubOf ?p R RR C ?k"
    by (rule prDetailsMap_personView [OF assms(2,3)])
  show ?thesis
    by (simp only: row row_reviewStatus own stub stubOf_status)
qed

subsection \<open>The timing arrays and the elapsed times\<close>

lemma getOrEmpty_entry: "distinct (map fst m) \<Longrightarrow> e \<in> set m \<Longrightarrow> getOrEmpty m (fst e) = snd e"
  by (cases e) (simp add: getOrEmpty_def mapGet_def)

lemma entry_of_getOrEmpty: "getOrEmpty m k \<noteq> [] \<Longrightarrow> (k, getOrEmpty m k) \<in> set m"
proof -
  assume ne: "getOrEmpty m k \<noteq> []"
  then obtain l where l: "map_of m k = Some l"
    by (cases "map_of m k") (simp_all add: getOrEmpty_def mapGet_def)
  then have "getOrEmpty m k = l" by (simp add: getOrEmpty_def mapGet_def)
  with map_of_SomeD [OF l] show ?thesis by simp
qed

lemma pushed_nonNeg: "t \<in> set (pushed (nonNeg x)) \<longleftrightarrow> t = x \<and> 0 \<le> x"
  by (cases "0 \<le> x") (simp_all add: pushed_def nonNeg_def)

lemma pushed_case_nonNeg:
  "t \<in> set (pushed (case e of None \<Rightarrow> None | Some x \<Rightarrow> nonNeg x)) \<longleftrightarrow> e = Some t \<and> 0 \<le> t"
proof (cases e)
  case None
  then show ?thesis by (simp add: pushed_def)
next
  case (Some x)
  then show ?thesis by (auto simp: pushed_nonNeg)
qed

lemma reviewStub_times:
  assumes "reviewsOf p (getOrEmpty R k) \<noteq> []"
  shows "s_firstCommentTime (reviewStub p (getOrEmpty RR k) (getOrEmpty C k) (getOrEmpty R k)) =
           (case firstCommentElapsed p R RR C k of None \<Rightarrow> None | Some t \<Rightarrow> nonNeg t)"
    and "s_firstReviewTime (reviewStub p (getOrEmpty RR k) (getOrEmpty C k) (getOrEmpty R k)) =
           (case firstReviewElapsed p R RR k of None \<Rightarrow> None | Some t \<Rightarrow> nonNeg t)"
  using assms stubOf_firstCommentTime [of p R RR C k] stubOf_firstReviewTime [of p R RR C k]
  by (simp_all add: stubOf_def)

lemma commentStub_times:
  assumes "reviewsOf p (getOrEmpty R k) = []" and "commentsOf p (getOrEmpty C k) \<noteq> []"
  shows "s_firstCommentTime (commentStub p (getOrEmpty RR k) (getOrEmpty C k)) =
           (case firstCommentElapsed p R RR C k of None \<Rightarrow> None | Some t \<Rightarrow> nonNeg t)"
  using assms stubOf_firstCommentTime [of p R RR C k]
  by (simp add: stubOf_def)

lemma reviewTimesOf_iff:
  assumes "distinct (map fst R)"
  shows "t \<in> set (reviewTimesOf s_firstReviewTime p R RR C) \<longleftrightarrow>
           0 \<le> t \<and> (\<exists>k. firstReviewElapsed p R RR k = Some t)"
    and "t \<in> set (reviewTimesOf s_firstCommentTime p R RR C) \<longleftrightarrow>
           0 \<le> t \<and> (\<exists>k. reviewsOf p (getOrEmpty R k) \<noteq> [] \<and> firstCommentElapsed p R RR C k = Some t)"
proof -
  have ent: "(\<exists>e \<in> set R. reviewsOf p (snd e) \<noteq> [] \<and> Q (fst e) (snd e)) \<longleftrightarrow>
      (\<exists>k. reviewsOf p (getOrEmpty R k) \<noteq> [] \<and> Q k (getOrEmpty R k))" for Q
  proof
    assume "\<exists>e \<in> set R. reviewsOf p (snd e) \<noteq> [] \<and> Q (fst e) (snd e)"
    then obtain e where e: "e \<in> set R" "reviewsOf p (snd e) \<noteq> []" "Q (fst e) (snd e)" by blast
    from getOrEmpty_entry [OF assms e(1)] e(2,3)
    show "\<exists>k. reviewsOf p (getOrEmpty R k) \<noteq> [] \<and> Q k (getOrEmpty R k)"
      by (intro exI [of _ "fst e"]) simp
  next
    assume "\<exists>k. reviewsOf p (getOrEmpty R k) \<noteq> [] \<and> Q k (getOrEmpty R k)"
    then obtain k where k: "reviewsOf p (getOrEmpty R k) \<noteq> []" "Q k (getOrEmpty R k)" by blast
    from k(1) have "getOrEmpty R k \<noteq> []" by (auto simp: reviewsOf_Nil)
    from entry_of_getOrEmpty [OF this] k
    show "\<exists>e \<in> set R. reviewsOf p (snd e) \<noteq> [] \<and> Q (fst e) (snd e)"
      by (intro bexI [of _ "(k, getOrEmpty R k)"]) simp_all
  qed
  have "t \<in> set (reviewTimesOf s_firstReviewTime p R RR C) \<longleftrightarrow>
      (\<exists>e \<in> set R. reviewsOf p (snd e) \<noteq> [] \<and>
         t \<in> set (pushed (s_firstReviewTime
                (reviewStub p (getOrEmpty RR (fst e)) (getOrEmpty C (fst e)) (snd e)))))"
    by (auto simp: reviewTimesOf_def split: if_splits)
  also have "\<dots> \<longleftrightarrow> (\<exists>k. reviewsOf p (getOrEmpty R k) \<noteq> [] \<and>
         t \<in> set (pushed (s_firstReviewTime
                (reviewStub p (getOrEmpty RR k) (getOrEmpty C k) (getOrEmpty R k)))))"
    by (rule ent [where Q = "\<lambda>k rs. t \<in> set (pushed (s_firstReviewTime
                (reviewStub p (getOrEmpty RR k) (getOrEmpty C k) rs)))"])
  also have "\<dots> \<longleftrightarrow> (\<exists>k. reviewsOf p (getOrEmpty R k) \<noteq> [] \<and>
         firstReviewElapsed p R RR k = Some t \<and> 0 \<le> t)"
  proof -
    have "(reviewsOf p (getOrEmpty R k) \<noteq> [] \<and>
         t \<in> set (pushed (s_firstReviewTime
                (reviewStub p (getOrEmpty RR k) (getOrEmpty C k) (getOrEmpty R k))))) \<longleftrightarrow>
        (reviewsOf p (getOrEmpty R k) \<noteq> [] \<and> firstReviewElapsed p R RR k = Some t \<and> 0 \<le> t)"
      for k
      by (cases "reviewsOf p (getOrEmpty R k) = []")
         (simp_all add: reviewStub_times pushed_case_nonNeg)
    then show ?thesis by (simp only:)
  qed
  also have "\<dots> \<longleftrightarrow> 0 \<le> t \<and> (\<exists>k. firstReviewElapsed p R RR k = Some t)"
    by (auto simp: firstReviewElapsed_def firstFormalOf_Nil split: option.splits)
  finally show "t \<in> set (reviewTimesOf s_firstReviewTime p R RR C) \<longleftrightarrow>
           0 \<le> t \<and> (\<exists>k. firstReviewElapsed p R RR k = Some t)" .
  have "t \<in> set (reviewTimesOf s_firstCommentTime p R RR C) \<longleftrightarrow>
      (\<exists>e \<in> set R. reviewsOf p (snd e) \<noteq> [] \<and>
         t \<in> set (pushed (s_firstCommentTime
                (reviewStub p (getOrEmpty RR (fst e)) (getOrEmpty C (fst e)) (snd e)))))"
    by (auto simp: reviewTimesOf_def split: if_splits)
  also have "\<dots> \<longleftrightarrow> (\<exists>k. reviewsOf p (getOrEmpty R k) \<noteq> [] \<and>
         t \<in> set (pushed (s_firstCommentTime
                (reviewStub p (getOrEmpty RR k) (getOrEmpty C k) (getOrEmpty R k)))))"
    by (rule ent [where Q = "\<lambda>k rs. t \<in> set (pushed (s_firstCommentTime
                (reviewStub p (getOrEmpty RR k) (getOrEmpty C k) rs)))"])
  also have "\<dots> \<longleftrightarrow> 0 \<le> t \<and> (\<exists>k. reviewsOf p (getOrEmpty R k) \<noteq> [] \<and>
         firstCommentElapsed p R RR C k = Some t)"
  proof -
    have "(reviewsOf p (getOrEmpty R k) \<noteq> [] \<and>
         t \<in> set (pushed (s_firstCommentTime
                (reviewStub p (getOrEmpty RR k) (getOrEmpty C k) (getOrEmpty R k))))) \<longleftrightarrow>
        (0 \<le> t \<and> reviewsOf p (getOrEmpty R k) \<noteq> [] \<and> firstCommentElapsed p R RR C k = Some t)"
      for k
      by (cases "reviewsOf p (getOrEmpty R k) = []")
         (auto simp: reviewStub_times pushed_case_nonNeg)
    then show ?thesis by (simp only:) simp
  qed
  finally show "t \<in> set (reviewTimesOf s_firstCommentTime p R RR C) \<longleftrightarrow>
           0 \<le> t \<and> (\<exists>k. reviewsOf p (getOrEmpty R k) \<noteq> [] \<and> firstCommentElapsed p R RR C k = Some t)" .
qed

lemma commentTimesOf_iff:
  assumes "distinct (map fst C)"
  shows "t \<in> set (commentTimesOf p R RR C) \<longleftrightarrow>
           0 \<le> t \<and> (\<exists>k. reviewsOf p (getOrEmpty R k) = [] \<and> firstCommentElapsed p R RR C k = Some t)"
proof -
  have "t \<in> set (commentTimesOf p R RR C) \<longleftrightarrow>
      (\<exists>e \<in> set C. commentsOf p (snd e) \<noteq> [] \<and> reviewsOf p (getOrEmpty R (fst e)) = [] \<and>
         t \<in> set (pushed (s_firstCommentTime (commentStub p (getOrEmpty RR (fst e)) (snd e)))))"
    by (auto simp: commentTimesOf_def split: if_splits)
  also have "\<dots> \<longleftrightarrow>
      (\<exists>k. commentsOf p (getOrEmpty C k) \<noteq> [] \<and> reviewsOf p (getOrEmpty R k) = [] \<and>
         t \<in> set (pushed (s_firstCommentTime (commentStub p (getOrEmpty RR k) (getOrEmpty C k)))))"
  proof
    assume "\<exists>e \<in> set C. commentsOf p (snd e) \<noteq> [] \<and> reviewsOf p (getOrEmpty R (fst e)) = [] \<and>
         t \<in> set (pushed (s_firstCommentTime (commentStub p (getOrEmpty RR (fst e)) (snd e))))"
    then obtain e where e: "e \<in> set C" "commentsOf p (snd e) \<noteq> []"
      "reviewsOf p (getOrEmpty R (fst e)) = []"
      "t \<in> set (pushed (s_firstCommentTime (commentStub p (getOrEmpty RR (fst e)) (snd e))))"
      by blast
    from getOrEmpty_entry [OF assms e(1)] e(2,3,4)
    show "\<exists>k. commentsOf p (getOrEmpty C k) \<noteq> [] \<and> reviewsOf p (getOrEmpty R k) = [] \<and>
         t \<in> set (pushed (s_firstCommentTime (commentStub p (getOrEmpty RR k) (getOrEmpty C k))))"
      by (intro exI [of _ "fst e"]) simp
  next
    assume "\<exists>k. commentsOf p (getOrEmpty C k) \<noteq> [] \<and> reviewsOf p (getOrEmpty R k) = [] \<and>
         t \<in> set (pushed (s_firstCommentTime (commentStub p (getOrEmpty RR k) (getOrEmpty C k))))"
    then obtain k where k: "commentsOf p (getOrEmpty C k) \<noteq> []" "reviewsOf p (getOrEmpty R k) = []"
      "t \<in> set (pushed (s_firstCommentTime (commentStub p (getOrEmpty RR k) (getOrEmpty C k))))"
      by blast
    from k(1) have "getOrEmpty C k \<noteq> []" by (auto simp: commentsOf_Nil)
    from entry_of_getOrEmpty [OF this] k
    show "\<exists>e \<in> set C. commentsOf p (snd e) \<noteq> [] \<and> reviewsOf p (getOrEmpty R (fst e)) = [] \<and>
         t \<in> set (pushed (s_firstCommentTime (commentStub p (getOrEmpty RR (fst e)) (snd e))))"
      by (intro bexI [of _ "(k, getOrEmpty C k)"]) simp_all
  qed
  also have "\<dots> \<longleftrightarrow> 0 \<le> t \<and>
      (\<exists>k. commentsOf p (getOrEmpty C k) \<noteq> [] \<and> reviewsOf p (getOrEmpty R k) = [] \<and>
           firstCommentElapsed p R RR C k = Some t)"
  proof -
    have "(commentsOf p (getOrEmpty C k) \<noteq> [] \<and> reviewsOf p (getOrEmpty R k) = [] \<and>
         t \<in> set (pushed (s_firstCommentTime (commentStub p (getOrEmpty RR k) (getOrEmpty C k)))))
        \<longleftrightarrow>
        (0 \<le> t \<and> commentsOf p (getOrEmpty C k) \<noteq> [] \<and> reviewsOf p (getOrEmpty R k) = [] \<and>
           firstCommentElapsed p R RR C k = Some t)"
      for k
      by (cases "reviewsOf p (getOrEmpty R k) = [] \<and> commentsOf p (getOrEmpty C k) \<noteq> []")
         (auto simp: commentStub_times pushed_case_nonNeg pushed_nonNeg)
    then show ?thesis by (simp only:) simp
  qed
  also have "\<dots> \<longleftrightarrow> 0 \<le> t \<and>
      (\<exists>k. reviewsOf p (getOrEmpty R k) = [] \<and> firstCommentElapsed p R RR C k = Some t)"
    by (auto simp: firstCommentElapsed_def split: option.splits if_splits)
  finally show ?thesis .
qed

lemma firstComment_times_iff:
  assumes "distinct (map fst R)" and "distinct (map fst C)"
  shows "t \<in> set (acc_timeToFirstComment (personView p prs R RR C)) \<longleftrightarrow>
           0 \<le> t \<and> (\<exists>k. firstCommentElapsed p R RR C k = Some t)"
  unfolding times_personView(1) [OF assms]
  by (auto simp: reviewTimesOf_iff(2) [OF assms(1)] commentTimesOf_iff [OF assms(2)])

lemma firstReview_times_iff:
  assumes "distinct (map fst R)" and "distinct (map fst C)"
  shows "t \<in> set (acc_timeToFirstReview (personView p prs R RR C)) \<longleftrightarrow>
           0 \<le> t \<and> (\<exists>k. firstReviewElapsed p R RR k = Some t)"
    and "t \<in> set (acc_timeToApproval (personView p prs R RR C)) \<longleftrightarrow>
           0 \<le> t \<and> (\<exists>k. firstReviewElapsed p R RR k = Some t)"
  unfolding times_personView(2,3) [OF assms]
  by (simp_all add: reviewTimesOf_iff(1) [OF assms(1)])

subsection \<open>The time metrics of the result\<close>

lemma calculateTimeMetrics_Some:
  assumes "ds \<noteq> []"
  shows "\<exists>m. calculateTimeMetrics ds = Some m \<and> tm_min m = of_int (Min (set ds))"
proof -
  from sortBy_key_nth0 [OF assms, of "\<lambda>x. x"]
  have "sortBy (\<lambda>a b. a - b) ds ! 0 = Min (set ds)" by simp
  with assms show ?thesis
    by (simp add: calculateTimeMetrics_def Let_def)
qed

lemma calculateTimeMetrics_zero:
  assumes "0 \<in> set ds" and "\<forall>t \<in> set ds. 0 \<le> t"
  shows "\<exists>m. calculateTimeMetrics ds = Some m \<and> tm_min m = 0"
proof -
  from assms(1) have ne: "ds \<noteq> []" by auto
  have "Min (set ds) = 0"
    using assms by (intro Min_eqI) auto
  with calculateTimeMetrics_Some [OF ne] show ?thesis by simp
qed

lemma personStats_times:
  "timeToFirstComment (personStats t p d ds) = calculateTimeMetrics (acc_timeToFirstComment d)"
  "timeToFirstReview (personStats t p d ds) = calculateTimeMetrics (acc_timeToFirstReview d)"
  "timeToApproval (personStats t p d ds) = calculateTimeMetrics (acc_timeToApproval d)"
  by (simp_all add: personStats_def Let_def)

lemma calculateStats_times:
  assumes "ps \<in> set (calculateStats env prs R RR C)"
  shows "timeToFirstComment ps =
           calculateTimeMetrics (acc_timeToFirstComment (personView (person ps) prs R RR C))"
    and "timeToFirstReview ps =
           calculateTimeMetrics (acc_timeToFirstReview (personView (person ps) prs R RR C))"
    and "timeToApproval ps =
           calculateTimeMetrics (acc_timeToApproval (personView (person ps) prs R RR C))"
proof -
  let ?d = "personView (person ps) prs R RR C"
  from calculateStats_elem [OF assms] obtain n where
    ps: "ps = personStats (length prs) (person ps) ?d (fst (buildDetails env R ?d prs n))"
    by blast
  have "timeToFirstComment ps = timeToFirstComment
      (personStats (length prs) (person ps) ?d (fst (buildDetails env R ?d prs n)))"
    using ps by (rule arg_cong)
  then show "timeToFirstComment ps = calculateTimeMetrics (acc_timeToFirstComment ?d)"
    by (simp only: personStats_times)
  have "timeToFirstReview ps = timeToFirstReview
      (personStats (length prs) (person ps) ?d (fst (buildDetails env R ?d prs n)))"
    using ps by (rule arg_cong)
  then show "timeToFirstReview ps = calculateTimeMetrics (acc_timeToFirstReview ?d)"
    by (simp only: personStats_times)
  have "timeToApproval ps = timeToApproval
      (personStats (length prs) (person ps) ?d (fst (buildDetails env R ?d prs n)))"
    using ps by (rule arg_cong)
  then show "timeToApproval ps = calculateTimeMetrics (acc_timeToApproval ?d)"
    by (simp only: personStats_times)
qed

lemma zero_persons:
  "map person (calculateStats sampleEnv samplePRs sampleReviews zeroRequests sampleComments)
     = [''alice'', ''bob'']"
  by code_simp

lemma zero_bob_elapsed:
  "firstCommentElapsed ''bob'' sampleReviews zeroRequests sampleComments (number (samplePRs ! 0))
     = Some 0"
  "firstReviewElapsed ''bob'' sampleReviews zeroRequests (number (samplePRs ! 0)) = Some 0"
  by code_simp+

lemma late_persons:
  "map person (calculateStats sampleEnv samplePRs sampleReviews lateRequests sampleComments)
     = [''alice'', ''bob'']"
  by code_simp

lemma late_bob_elapsed:
  "firstCommentElapsed ''bob'' sampleReviews lateRequests sampleComments (number (samplePRs ! 0))
     = Some (- 300000)"
  "firstReviewElapsed ''bob'' sampleReviews lateRequests (number (samplePRs ! 0))
     = Some (- 300000)"
  by code_simp+

subsection \<open>The request that is used\<close>

lemma find_first_split:
  "find P xs = Some x \<Longrightarrow> \<exists>ys zs. xs = ys @ x # zs \<and> P x \<and> (\<forall>y \<in> set ys. \<not> P y)"
proof (induction xs)
  case Nil
  then show ?case by simp
next
  case (Cons a xs)
  show ?case
  proof (cases "P a")
    case True
    with Cons.prems have "a = x" by simp
    with True show ?thesis by (intro exI [of _ "[]"] exI [of _ xs]) simp
  next
    case False
    with Cons.prems have "find P xs = Some x" by simp
    from Cons.IH [OF this] obtain ys zs where
      "xs = ys @ x # zs" "P x" "\<forall>y \<in> set ys. \<not> P y" by blast
    with False show ?thesis by (intro exI [of _ "a # ys"] exI [of _ zs]) simp
  qed
qed

lemma requestFor_first:
  "requestFor p reqs = Some req \<Longrightarrow>
   \<exists>ys zs. reqs = ys @ req # zs \<and> q_reviewer req = p \<and> (\<forall>q \<in> set ys. q_reviewer q \<noteq> p)"
  unfolding requestFor_def by (rule find_first_split)

lemma requestFor_earliest:
  assumes "requestFor p reqs = Some req" and "sorted (map requestedAt reqs)"
    and "q \<in> set reqs" and "q_reviewer q = p"
  shows "requestedAt req \<le> requestedAt q"
  using find_sorted_least [OF assms(2), of "\<lambda>req. q_reviewer req = p" req q] assms(1,3,4)
  by (simp add: requestFor_def)

lemma reviewerStep_requests:
  assumes "\<And>q. requestFor q reqs' = requestFor q reqs"
  shows "reviewerStep k reqs' cs rv rs d = reviewerStep k reqs cs rv rs d"
  using assms [of rv] by (simp add: reviewerStep_def requestFor_def)

lemma commenterStep_requests:
  assumes "\<And>q. requestFor q reqs' = requestFor q reqs"
  shows "commenterStep k reqs' cm cs d = commenterStep k reqs cm cs d"
  using assms [of cm] by (simp add: commenterStep_def requestFor_def)

lemma buildPersonMap_requests:
  assumes "\<And>k q. requestFor q (getOrEmpty RR' k) = requestFor q (getOrEmpty RR k)"
  shows "buildPersonMap prs R RR' C = buildPersonMap prs R RR C"
proof -
  have r: "reviewerStep k (getOrEmpty RR' j) cs rv rs = reviewerStep k (getOrEmpty RR j) cs rv rs"
    for k j cs rv rs
    by (rule ext) (rule reviewerStep_requests, rule assms)
  have c: "commenterStep k (getOrEmpty RR' j) cm cs = commenterStep k (getOrEmpty RR j) cm cs"
    for k j cm cs
    by (rule ext) (rule commenterStep_requests, rule assms)
  have pr: "processReviews RR' C = processReviews RR C"
    by (rule ext, rule ext) (simp only: processReviews_def Let_def r)
  have pc: "processComments RR' = processComments RR"
    by (rule ext, rule ext) (simp only: processComments_def Let_def c)
  show ?thesis by (simp only: buildPersonMap_def pr pc)
qed

lemma calculateStats_requests:
  assumes "\<And>k q. requestFor q (getOrEmpty RR' k) = requestFor q (getOrEmpty RR k)"
  shows "calculateStats env prs R RR' C = calculateStats env prs R RR C"
  by (simp only: calculateStats_def buildPersonMap_requests [OF assms])

lemma elapsed_origin:
  "requestFor p (getOrEmpty RR k) = None \<Longrightarrow>
     firstCommentElapsed p R RR C k = None \<and> firstReviewElapsed p R RR k = None"
  "requestFor p (getOrEmpty RR k) = Some req \<Longrightarrow>
     firstReviewElapsed p R RR k =
       map_option (\<lambda>r. submittedAt r - requestedAt req) (firstFormalOf p (getOrEmpty R k)) \<and>
     (reviewsOf p (getOrEmpty R k) \<noteq> [] \<longrightarrow>
        firstCommentElapsed p R RR C k =
          Some (firstInteraction p (getOrEmpty R k) (getOrEmpty C k) - requestedAt req)) \<and>
     (reviewsOf p (getOrEmpty R k) = [] \<and> commentsOf p (getOrEmpty C k) \<noteq> [] \<longrightarrow>
        firstCommentElapsed p R RR C k =
          Some (Min (set (map c_createdAt (commentsOf p (getOrEmpty C k)))) - requestedAt req))"
  by (simp_all add: firstCommentElapsed_def firstReviewElapsed_def split: option.splits)

lemma unordered_result:
  "map requestedAt (filter (\<lambda>q. q_reviewer q = ''bob'') (getOrEmpty unorderedRequests 1))
     = [5000, 0]"
  "map submittedAt (filter (\<lambda>r. reviewer r = ''bob'') (getOrEmpty sampleReviews 1)) = [7200000]"
  "prNumber (prDetails
     (calculateStats sampleEnv samplePRs sampleReviews unorderedRequests sampleComments ! 1) ! 0)
     = 1"
  "person (calculateStats sampleEnv samplePRs sampleReviews unorderedRequests sampleComments ! 1)
     = ''bob''"
  "firstReviewTime (prDetails
     (calculateStats sampleEnv samplePRs sampleReviews unorderedRequests sampleComments ! 1) ! 0)
     = Some 7195000"
  "firstCommentTime (prDetails
     (calculateStats sampleEnv samplePRs sampleReviews unorderedRequests sampleComments ! 1) ! 0)
     = Some 7195000"
  "map_option tm_min (timeToApproval
     (calculateStats sampleEnv samplePRs sampleReviews unorderedRequests sampleComments ! 1))
     = Some 7195000"
  by code_simp+

lemma sample_bob_elapsed:
  "firstReviewElapsed ''bob'' sampleReviews sampleRequests (number (samplePRs ! 0))
     = Some 7200000"
  by code_simp

lemma repeated_same_first:
  "requestFor q (getOrEmpty repeatedRequests k) = requestFor q (getOrEmpty sampleRequests k)"
  by (simp add: repeatedRequests_def sampleRequests_def getOrEmpty_def mapGet_def requestFor_def)

section \<open>Verified properties\<close>

subsection \<open>Time-metrics reduction\<close>

text \<open>
  Claim C8. \<^verbatim>\<open>calculateTimeMetrics\<close> of the empty collection is absent; of a non-empty
  collection it is a record whose median is the middle element of the ascending sort
  when the count is odd, and the arithmetic mean of the two middle elements when the
  count is even. In particular the median of 10, 20, 30, 40 is 25 and the median of
  10, 20, 30 is 20.
\<close>

theorem calculateTimeMetrics_median:
  "calculateTimeMetrics [] = None \<and>
   (ds \<noteq> [] \<longrightarrow>
      (\<exists>m. calculateTimeMetrics ds = Some m \<and>
           tm_median m =
             (if odd (length ds) then of_int (sort ds ! (length ds div 2))
              else (of_int (sort ds ! (length ds div 2 - 1))
                      + of_int (sort ds ! (length ds div 2))) / 2))) \<and>
   map_option tm_median (calculateTimeMetrics [10, 20, 30, 40]) = Some 25 \<and>
   map_option tm_median (calculateTimeMetrics [10, 20, 30]) = Some 20"
proof (intro conjI impI)
  show "calculateTimeMetrics [] = None"
    by (simp add: calculateTimeMetrics_def)
next
  assume "ds \<noteq> []"
  then show "\<exists>m. calculateTimeMetrics ds = Some m \<and>
           tm_median m =
             (if odd (length ds) then of_int (sort ds ! (length ds div 2))
              else (of_int (sort ds ! (length ds div 2 - 1))
                      + of_int (sort ds ! (length ds div 2))) / 2)"
    by (simp add: calculateTimeMetrics_def sortBy_minus_sort Let_def even_iff_mod_2_eq_zero)
next
  show "map_option tm_median (calculateTimeMetrics [10, 20, 30, 40]) = Some 25"
    by (simp add: calculateTimeMetrics_def sortBy_minus_sort)
next
  show "map_option tm_median (calculateTimeMetrics [10, 20, 30]) = Some 20"
    by (simp add: calculateTimeMetrics_def sortBy_minus_sort)
qed

theorem calculateTimeMetrics_median_witness:
  "[30, 10, 20 :: int] \<noteq> [] \<and>
   (\<exists>m. calculateTimeMetrics [30, 10, 20] = Some m \<and> tm_median m = 20)"
  using calculateTimeMetrics_median [of "[30, 10, 20]"] by simp

subsection \<open>Detail-list completeness\<close>

text \<open>
  Claim C1. For every person in the result of \<^verbatim>\<open>calculateStats\<close>, the list
  \<^verbatim>\<open>prDetails\<close> has the length of \<^verbatim>\<open>pullRequests\<close> and its rows carry the PR numbers
  of the input, in the order of the input, whether or not the person interacted with
  the PR; when the PR numbers are distinct, every PR of the input has exactly one row.
\<close>

theorem detail_list_complete:
  "\<forall>ps \<in> set (calculateStats env prs reviews reviewRequests comments).
     length (prDetails ps) = length prs \<and>
     map prNumber (prDetails ps) = map number prs \<and>
     (distinct (map number prs) \<longrightarrow>
        (\<forall>pr \<in> set prs. length (filter (\<lambda>d. prNumber d = number pr) (prDetails ps)) = 1))"
proof
  fix ps assume "ps \<in> set (calculateStats env prs reviews reviewRequests comments)"
  from calculateStats_elem [OF this] obtain n where
    "ps = personStats (length prs) (person ps)
            (personView (person ps) prs reviews reviewRequests comments)
            (fst (buildDetails env reviews
                    (personView (person ps) prs reviews reviewRequests comments) prs n))"
    by blast
  then have d: "prDetails ps =
      fst (buildDetails env reviews (personView (person ps) prs reviews reviewRequests comments) prs n)"
    using prDetails_personStats by metis
  have m: "map prNumber (prDetails ps) = map number prs"
    by (simp add: d map_prNumber_buildDetails)
  have l: "length (prDetails ps) = length prs"
    by (simp add: d buildDetails_length)
  have "length (filter (\<lambda>d. prNumber d = number pr) (prDetails ps)) = 1"
    if "distinct (map number prs)" and "pr \<in> set prs" for pr
  proof -
    have "length (filter (\<lambda>d. prNumber d = number pr) (prDetails ps))
            = length (filter (\<lambda>k. k = number pr) (map prNumber (prDetails ps)))"
      by (simp add: filter_map comp_def)
    also have "\<dots> = 1"
      unfolding m using that by (intro filter_eq_singleton) simp_all
    finally show ?thesis .
  qed
  with l m show "length (prDetails ps) = length prs \<and>
     map prNumber (prDetails ps) = map number prs \<and>
     (distinct (map number prs) \<longrightarrow>
        (\<forall>pr \<in> set prs. length (filter (\<lambda>d. prNumber d = number pr) (prDetails ps)) = 1))"
    by blast
qed

theorem detail_list_complete_witness:
  "length (calculateStats sampleEnv samplePRs sampleReviews sampleRequests sampleComments) = 2 \<and>
   length (prDetails
     (calculateStats sampleEnv samplePRs sampleReviews sampleRequests sampleComments ! 1)) = 2 \<and>
   map prNumber (prDetails
     (calculateStats sampleEnv samplePRs sampleReviews sampleRequests sampleComments ! 1)) = [1, 2] \<and>
   length (filter (\<lambda>d. prNumber d = 2) (prDetails
     (calculateStats sampleEnv samplePRs sampleReviews sampleRequests sampleComments ! 1))) = 1"
proof -
  let ?out = "calculateStats sampleEnv samplePRs sampleReviews sampleRequests sampleComments"
  have "length (map person ?out) = 2"
    by (simp only: sample_persons) simp
  then have len: "length ?out = 2" by simp
  then have mem: "?out ! 1 \<in> set ?out" by simp
  have prs: "distinct (map number samplePRs)" "length samplePRs = 2"
    "map number samplePRs = [1, 2]" "samplePRs ! 1 \<in> set samplePRs" "number (samplePRs ! 1) = 2"
    by (simp_all add: samplePRs_def)
  note T = detail_list_complete
    [of sampleEnv samplePRs sampleReviews sampleRequests sampleComments, THEN bspec, OF mem]
  from T have a: "length (prDetails (?out ! 1)) = length samplePRs"
    and b: "map prNumber (prDetails (?out ! 1)) = map number samplePRs"
    and c: "distinct (map number samplePRs) \<longrightarrow>
      (\<forall>pr \<in> set samplePRs.
         length (filter (\<lambda>d. prNumber d = number pr) (prDetails (?out ! 1))) = 1)"
    by blast+
  from c prs(1) prs(4)
  have "length (filter (\<lambda>d. prNumber d = number (samplePRs ! 1)) (prDetails (?out ! 1))) = 1"
    by blast
  then show ?thesis using a b len prs(2,3,5) by simp
qed

subsection \<open>Own-PR exclusivity\<close>

text \<open>
  Claim C9. PR numbers being unique in the window, a row of a person's detail list has
  the status \<^verbatim>\<open>OWN_PR\<close> exactly when the person is the author of the row's PR: the
  author's row is \<^verbatim>\<open>OWN_PR\<close> whatever the person reviewed or commented, and nobody else's
  row is. The row of a person who is not the author is classified from that person's own
  reviews and comments on the PR: the state of the person's latest review, else
  \<^verbatim>\<open>COMMENTED_ONLY\<close>, else \<^verbatim>\<open>NOT_REVIEWED\<close>.
\<close>

theorem own_pr_exclusive:
  assumes "distinct (map number prs)"
    and "distinct (map fst reviews)" and "distinct (map fst comments)"
    and "ps \<in> set (calculateStats env prs reviews reviewRequests comments)"
    and "i < length prs"
  shows "(reviewStatus (prDetails ps ! i) = OWN_PR \<longleftrightarrow> author (prs ! i) = person ps) \<and>
    (author (prs ! i) \<noteq> person ps \<longrightarrow>
       reviewStatus (prDetails ps ! i) =
         (if reviewsOf (person ps) (getOrEmpty reviews (number (prs ! i))) \<noteq> []
            then Reviewed (r_state (latestReviewOf (person ps)
                                     (getOrEmpty reviews (number (prs ! i)))))
          else if commentsOf (person ps) (getOrEmpty comments (number (prs ! i))) \<noteq> []
            then COMMENTED_ONLY
          else NOT_REVIEWED))"
proof -
  let ?p = "person ps"
  let ?d = "personView ?p prs reviews reviewRequests comments"
  let ?k = "number (prs ! i)"
  from calculateStats_elem [OF assms(4)] have nb: "\<not> isBot ?p" by blast
  from calculateStats_row [OF assms(4,5)] obtain n where
    row: "prDetails ps ! i = fst (buildDetail env reviews ?d (prs ! i) n)" by blast
  have own: "?k \<in> set (ownPRNumbers ?d) \<longleftrightarrow> author (prs ! i) = ?p"
    by (rule own_number_iff [OF assms(1) assms(5) nb])
  have stub: "mapGet (prDetailsMap ?d) ?k = stubOf ?p reviews reviewRequests comments ?k"
    by (rule prDetailsMap_personView [OF assms(2,3)])
  have notown: "(case mapGet (prDetailsMap ?d) ?k of
                   None \<Rightarrow> NOT_REVIEWED | Some s \<Rightarrow> s_reviewStatus s) \<noteq> OWN_PR"
    using stub_status_personView [of ?p prs reviews reviewRequests comments ?k]
    by (simp split: option.splits)
  have a: "reviewStatus (prDetails ps ! i) = OWN_PR \<longleftrightarrow> author (prs ! i) = ?p"
    using notown by (simp add: row row_reviewStatus own)
  have b: "reviewStatus (prDetails ps ! i) =
         (if reviewsOf ?p (getOrEmpty reviews ?k) \<noteq> []
            then Reviewed (r_state (latestReviewOf ?p (getOrEmpty reviews ?k)))
          else if commentsOf ?p (getOrEmpty comments ?k) \<noteq> [] then COMMENTED_ONLY
          else NOT_REVIEWED)" if "author (prs ! i) \<noteq> ?p"
    using that by (simp only: row row_reviewStatus own if_False stub stubOf_status)
  from a b show ?thesis by blast
qed

theorem own_pr_exclusive_witness:
  "distinct (map number samplePRs) \<and> distinct (map fst sampleReviews) \<and>
   distinct (map fst sampleComments) \<and>
   reviewStatus (prDetails
     (calculateStats sampleEnv samplePRs sampleReviews sampleRequests sampleComments ! 0) ! 0)
     = OWN_PR \<and>
   reviewStatus (prDetails
     (calculateStats sampleEnv samplePRs sampleReviews sampleRequests sampleComments ! 1) ! 0)
     = Reviewed APPROVED"
proof -
  let ?out = "calculateStats sampleEnv samplePRs sampleReviews sampleRequests sampleComments"
  have mem: "?out ! 0 \<in> set ?out" "?out ! 1 \<in> set ?out"
    by (simp_all add: sample_result(1))
  have i: "0 < length samplePRs" by (simp add: sample_distinct)
  from own_pr_exclusive [OF sample_distinct(1,2,3) mem(1) i]
  have a: "reviewStatus (prDetails (?out ! 0) ! 0) = OWN_PR"
    by (simp add: sample_result sample_bob_review)
  from own_pr_exclusive [OF sample_distinct(1,2,3) mem(2) i]
  have b: "reviewStatus (prDetails (?out ! 1) ! 0) = Reviewed APPROVED"
    by (simp add: sample_result sample_bob_review del: One_nat_def)
  from a b sample_distinct show ?thesis by simp
qed

subsection \<open>Last-submitted review wins\<close>

text \<open>
  Claim C2. For a person of the result, every entry of \<^verbatim>\<open>reviews\<close> (a PR) on which the
  person has one or more reviews increments exactly one of the person's three buckets,
  the bucket of the state of the person's latest review on that PR: each bucket counts
  the PRs whose latest review by the person has that state, and the three buckets add
  up to the number of PRs the person reviewed. The latest review is one of the person's
  reviews on the PR and no review of the person on the PR was submitted later.
\<close>

theorem last_review_wins:
  assumes "ps \<in> set (calculateStats env prs reviews reviewRequests comments)"
  shows
   "approved (reviewMetrics ps) =
      length (filter (\<lambda>e. filter (\<lambda>r. reviewer r = person ps) (snd e) \<noteq> []
                \<and> r_state (latestReviewOf (person ps) (snd e)) = APPROVED) reviews) \<and>
    commented (reviewMetrics ps) =
      length (filter (\<lambda>e. filter (\<lambda>r. reviewer r = person ps) (snd e) \<noteq> []
                \<and> r_state (latestReviewOf (person ps) (snd e)) = COMMENTED) reviews) \<and>
    changesRequested (reviewMetrics ps) =
      length (filter (\<lambda>e. filter (\<lambda>r. reviewer r = person ps) (snd e) \<noteq> []
                \<and> r_state (latestReviewOf (person ps) (snd e)) = CHANGES_REQUESTED) reviews) \<and>
    approved (reviewMetrics ps) + commented (reviewMetrics ps) + changesRequested (reviewMetrics ps)
      = length (filter (\<lambda>e. filter (\<lambda>r. reviewer r = person ps) (snd e) \<noteq> []) reviews) \<and>
    (\<forall>e \<in> set reviews. filter (\<lambda>r. reviewer r = person ps) (snd e) \<noteq> [] \<longrightarrow>
       latestReviewOf (person ps) (snd e) \<in> set (snd e) \<and>
       reviewer (latestReviewOf (person ps) (snd e)) = person ps \<and>
       (\<forall>r \<in> set (snd e). reviewer r = person ps \<longrightarrow>
          submittedAt r \<le> submittedAt (latestReviewOf (person ps) (snd e))))"
proof -
  let ?p = "person ps"
  let ?d = "personView ?p prs reviews reviewRequests comments"
  from calculateStats_elem [OF assms] obtain n where nb: "\<not> isBot ?p"
    and ps: "ps = personStats (length prs) ?p ?d (fst (buildDetails env reviews ?d prs n))"
    by blast
  have ro: "reviewsOf ?p rs = filter (\<lambda>r. reviewer r = ?p) rs" for rs
    by (rule reviewsOf_nonbot [OF nb])
  have a: "approved (reviewMetrics ps) = reviewsApproved ?d"
    and c: "commented (reviewMetrics ps) = reviewsCommented ?d"
    and r: "changesRequested (reviewMetrics ps) = reviewsChangesRequested ?d"
    using ps personStats_tally by metis+
  have a': "approved (reviewMetrics ps) =
      length (filter (\<lambda>e. filter (\<lambda>r. reviewer r = ?p) (snd e) \<noteq> []
                \<and> r_state (latestReviewOf ?p (snd e)) = APPROVED) reviews)"
    by (simp only: a tally_personView ro)
  have c': "commented (reviewMetrics ps) =
      length (filter (\<lambda>e. filter (\<lambda>r. reviewer r = ?p) (snd e) \<noteq> []
                \<and> r_state (latestReviewOf ?p (snd e)) = COMMENTED) reviews)"
    by (simp only: c tally_personView ro)
  have r': "changesRequested (reviewMetrics ps) =
      length (filter (\<lambda>e. filter (\<lambda>r. reviewer r = ?p) (snd e) \<noteq> []
                \<and> r_state (latestReviewOf ?p (snd e)) = CHANGES_REQUESTED) reviews)"
    by (simp only: r tally_personView ro)
  have s: "approved (reviewMetrics ps) + commented (reviewMetrics ps)
             + changesRequested (reviewMetrics ps)
      = length (filter (\<lambda>e. filter (\<lambda>r. reviewer r = ?p) (snd e) \<noteq> []) reviews)"
    unfolding a' c' r'
    by (rule tally_partition
          [where P = "\<lambda>e. filter (\<lambda>r. reviewer r = ?p) (snd e) \<noteq> []"
             and st = "\<lambda>e. r_state (latestReviewOf ?p (snd e))"])
  have l: "latestReviewOf ?p (snd e) \<in> set (snd e) \<and>
       reviewer (latestReviewOf ?p (snd e)) = ?p \<and>
       (\<forall>r \<in> set (snd e). reviewer r = ?p \<longrightarrow>
          submittedAt r \<le> submittedAt (latestReviewOf ?p (snd e)))"
    if "filter (\<lambda>r. reviewer r = ?p) (snd e) \<noteq> []" for e
  proof -
    from that have "reviewsOf ?p (snd e) \<noteq> []" by (simp add: ro)
    from latestReviewOf_mem [OF this]
    have m: "latestReviewOf ?p (snd e) \<in> set (filter (\<lambda>r. reviewer r = ?p) (snd e))"
      by (simp only: ro)
    have "submittedAt r \<le> submittedAt (latestReviewOf ?p (snd e))"
      if "r \<in> set (snd e)" "reviewer r = ?p" for r
      using latestReviewOf_max [of r ?p "snd e"] that by (simp add: ro)
    with m show ?thesis by simp
  qed
  from a' c' r' s l show ?thesis by blast
qed

theorem last_review_wins_witness:
  "approved (reviewMetrics
     (calculateStats sampleEnv samplePRs flipReviews sampleRequests sampleComments ! 1)) = 1 \<and>
   commented (reviewMetrics
     (calculateStats sampleEnv samplePRs flipReviews sampleRequests sampleComments ! 1)) = 0 \<and>
   changesRequested (reviewMetrics
     (calculateStats sampleEnv samplePRs flipReviews sampleRequests sampleComments ! 1)) = 0"
proof -
  let ?out = "calculateStats sampleEnv samplePRs flipReviews sampleRequests sampleComments"
  have "length (map person ?out) = 2" "map person ?out ! 1 = ''bob''"
    by (simp_all only: flip_persons) simp_all
  then have len: "length ?out = 2" and bob: "person (?out ! 1) = ''bob''"
    by simp_all
  from len have mem: "?out ! 1 \<in> set ?out" by simp
  from last_review_wins [OF mem] show ?thesis
    by (simp only: bob flip_bob_tally)
qed

subsection \<open>Reviewer count\<close>

text \<open>
  Claim C4, as stated, fails: a reviewer whose only review on a PR is of type
  "commented" is counted. On the variant of the sample where bob's only review of the
  first PR is a comment-type review, the PR has no approved or changes-requested review
  at all, and the reviewer count of its row is 1.
\<close>

theorem reviewer_count_counterexample:
  "filter isFormal (getOrEmpty commentedReviews 1) = [] \<and>
   prNumber (prDetails
     (calculateStats sampleEnv samplePRs commentedReviews sampleRequests sampleComments ! 0) ! 0)
     = 1 \<and>
   reviewerCount (prDetails
     (calculateStats sampleEnv samplePRs commentedReviews sampleRequests sampleComments ! 0) ! 0)
     = 1"
  by code_simp

text \<open>
  Claim C4, amended. In every row of every person, \<^verbatim>\<open>reviewerCount\<close> is the number of
  distinct identities that are not bots and have at least one review on the row's PR, of
  any state (approved, commented or changes requested); it is therefore the same in
  every person's row for that PR.
\<close>

theorem reviewer_count_any_state:
  assumes "ps \<in> set (calculateStats env prs reviews reviewRequests comments)"
    and "ps' \<in> set (calculateStats env prs reviews reviewRequests comments)"
    and "i < length prs"
  shows "reviewerCount (prDetails ps ! i) =
           card (reviewer ` {r \<in> set (getOrEmpty reviews (number (prs ! i))). \<not> isBot (reviewer r)})
         \<and> reviewerCount (prDetails ps' ! i) = reviewerCount (prDetails ps ! i)"
proof -
  from calculateStats_row [OF assms(1,3)] obtain n where
    "prDetails ps ! i = fst (buildDetail env reviews
        (personView (person ps) prs reviews reviewRequests comments) (prs ! i) n)" by blast
  then have a: "reviewerCount (prDetails ps ! i) =
           card (reviewer ` {r \<in> set (getOrEmpty reviews (number (prs ! i))). \<not> isBot (reviewer r)})"
    by (simp only: row_reviewerCount)
  from calculateStats_row [OF assms(2,3)] obtain n' where
    "prDetails ps' ! i = fst (buildDetail env reviews
        (personView (person ps') prs reviews reviewRequests comments) (prs ! i) n')" by blast
  then have b: "reviewerCount (prDetails ps' ! i) =
           card (reviewer ` {r \<in> set (getOrEmpty reviews (number (prs ! i))). \<not> isBot (reviewer r)})"
    by (simp only: row_reviewerCount)
  from a b show ?thesis by simp
qed

theorem reviewer_count_any_state_witness:
  "reviewerCount (prDetails
     (calculateStats sampleEnv samplePRs commentedReviews sampleRequests sampleComments ! 0) ! 0)
     = card (reviewer ` set (getOrEmpty commentedReviews 1)) \<and>
   reviewerCount (prDetails
     (calculateStats sampleEnv samplePRs commentedReviews sampleRequests sampleComments ! 1) ! 0)
     = reviewerCount (prDetails
     (calculateStats sampleEnv samplePRs commentedReviews sampleRequests sampleComments ! 0) ! 0)"
proof -
  let ?out = "calculateStats sampleEnv samplePRs commentedReviews sampleRequests sampleComments"
  have "length (map person ?out) = 2"
    by (simp only: commented_persons) simp
  then have mem: "?out ! 0 \<in> set ?out" "?out ! 1 \<in> set ?out" by simp_all
  have i: "0 < length samplePRs" by (simp add: sample_distinct)
  have k: "number (samplePRs ! 0) = 1" by (simp add: samplePRs_def)
  have nb: "{r \<in> set (getOrEmpty commentedReviews 1). \<not> isBot (reviewer r)}
              = set (getOrEmpty commentedReviews 1)"
  proof -
    have "\<not> isBot ''bob''" by code_simp
    moreover have "getOrEmpty commentedReviews 1 =
        [\<lparr>r_prNumber = 1, reviewer = ''bob'', r_state = COMMENTED, submittedAt = 100\<rparr>]"
      by code_simp
    ultimately show ?thesis by auto
  qed
  from reviewer_count_any_state [OF mem(1) mem(2) i] show ?thesis
    by (simp only: k nb)
qed

subsection \<open>Summary derivation\<close>

text \<open>
  Claim C6, as stated, fails in one place: \<^verbatim>\<open>uniquePRsReviewed\<close> counts a PR on which the
  person has a review of any state, not only the formal ones (approved or changes
  requested). On the variant of the sample where bob's only review is of type
  "commented", no review anywhere is formal and bob's count is 1.
\<close>

theorem summary_derivation_counterexample:
  "filter isFormal (concat (map snd commentedReviews)) = [] \<and>
   person (calculateStats sampleEnv samplePRs commentedReviews sampleRequests sampleComments ! 1)
     = ''bob'' \<and>
   uniquePRsReviewed
     (calculateStats sampleEnv samplePRs commentedReviews sampleRequests sampleComments ! 1) = 1"
  by (simp only: commented_bob_summary)

text \<open>
  Claim C6, amended. PR numbers being unique in the window, for every person of the
  result: \<^verbatim>\<open>eligiblePRsForReview\<close> is the number of PRs of the window minus the number of
  PRs the person opened, and is never negative; \<^verbatim>\<open>uniquePRsReviewed\<close> is the number of
  distinct PR numbers, other than those of the person's own PRs, on which the person has
  at least one review of any state; \<^verbatim>\<open>reviewParticipationRate\<close> is 0 when
  \<^verbatim>\<open>eligiblePRsForReview\<close> is 0 and \<^verbatim>\<open>uniquePRsReviewed\<close> divided by
  \<^verbatim>\<open>eligiblePRsForReview\<close>, times 100, otherwise.
\<close>

theorem summary_derivation:
  assumes "distinct (map number prs)"
    and "ps \<in> set (calculateStats env prs reviews reviewRequests comments)"
  shows
   "eligiblePRsForReview ps =
      int (length prs) - int (length (filter (\<lambda>pr. author pr = person ps) prs)) \<and>
    0 \<le> eligiblePRsForReview ps \<and>
    uniquePRsReviewed ps =
      card {k. (\<exists>rs. (k, rs) \<in> set reviews \<and> (\<exists>r \<in> set rs. reviewer r = person ps)) \<and>
               k \<notin> number ` {pr \<in> set prs. author pr = person ps}} \<and>
    reviewParticipationRate ps =
      (if eligiblePRsForReview ps = 0 then 0
       else of_nat (uniquePRsReviewed ps) / of_int (eligiblePRsForReview ps) * 100)"
proof -
  let ?p = "person ps"
  let ?d = "personView ?p prs reviews reviewRequests comments"
  from calculateStats_elem [OF assms(2)] obtain n where nb: "\<not> isBot ?p"
    and ps: "ps = personStats (length prs) ?p ?d (fst (buildDetails env reviews ?d prs n))"
    by blast
  have own: "length (ownPRNumbers ?d) = length (filter (\<lambda>pr. author pr = ?p) prs)"
    by (rule length_own_personView [OF assms(1) nb])
  have e: "eligiblePRsForReview ps = int (length prs) - int (length (ownPRNumbers ?d))"
  proof -
    have "eligiblePRsForReview ps = eligiblePRsForReview
        (personStats (length prs) ?p ?d (fst (buildDetails env reviews ?d prs n)))"
      using ps by (rule arg_cong)
    then show ?thesis by (simp only: personStats_summary(1))
  qed
  have u: "uniquePRsReviewed ps =
      card {k \<in> set (prsReviewedSet ?d). k \<notin> set (ownPRNumbers ?d)}"
  proof -
    have "uniquePRsReviewed ps = uniquePRsReviewed
        (personStats (length prs) ?p ?d (fst (buildDetails env reviews ?d prs n)))"
      using ps by (rule arg_cong)
    then show ?thesis by (simp only: personStats_summary(2))
  qed
  have r: "reviewParticipationRate ps =
     (if int (length prs) - int (length (ownPRNumbers ?d)) > 0
      then (of_nat (card {k \<in> set (prsReviewedSet ?d). k \<notin> set (ownPRNumbers ?d)})
              / of_int (int (length prs) - int (length (ownPRNumbers ?d)))) * 100
      else 0)"
  proof -
    have "reviewParticipationRate ps = reviewParticipationRate
        (personStats (length prs) ?p ?d (fst (buildDetails env reviews ?d prs n)))"
      using ps by (rule arg_cong)
    then show ?thesis by (simp only: personStats_summary(3))
  qed
  have e': "eligiblePRsForReview ps =
      int (length prs) - int (length (filter (\<lambda>pr. author pr = ?p) prs))"
    by (simp only: e own)
  have ge: "0 \<le> eligiblePRsForReview ps"
    unfolding e' using length_filter_le [of "\<lambda>pr. author pr = ?p" prs] by simp
  have u': "uniquePRsReviewed ps =
      card {k. (\<exists>rs. (k, rs) \<in> set reviews \<and> (\<exists>r \<in> set rs. reviewer r = ?p)) \<and>
               k \<notin> number ` {pr \<in> set prs. author pr = ?p}}"
    by (simp only: u reviewed_not_own_personView [OF nb])
  have r': "reviewParticipationRate ps =
      (if eligiblePRsForReview ps = 0 then 0
       else of_nat (uniquePRsReviewed ps) / of_int (eligiblePRsForReview ps) * 100)"
  proof (cases "eligiblePRsForReview ps = 0")
    case True
    then have "\<not> int (length prs) - int (length (ownPRNumbers ?d)) > 0"
      using e by simp
    then have "reviewParticipationRate ps = 0" by (simp only: r if_False)
    with True show ?thesis by simp
  next
    case False
    with ge e have "int (length prs) - int (length (ownPRNumbers ?d)) > 0" by simp
    then have "reviewParticipationRate ps =
        (of_nat (card {k \<in> set (prsReviewedSet ?d). k \<notin> set (ownPRNumbers ?d)})
              / of_int (int (length prs) - int (length (ownPRNumbers ?d)))) * 100"
      by (simp only: r if_True)
    then have "reviewParticipationRate ps =
        of_nat (uniquePRsReviewed ps) / of_int (eligiblePRsForReview ps) * 100"
      by (simp only: u e)
    with False show ?thesis by simp
  qed
  from e' ge u' r' show ?thesis by blast
qed

theorem summary_derivation_witness:
  "eligiblePRsForReview
     (calculateStats sampleEnv samplePRs sampleReviews sampleRequests sampleComments ! 1) = 1 \<and>
   reviewParticipationRate
     (calculateStats sampleEnv samplePRs sampleReviews sampleRequests sampleComments ! 1)
     = of_nat (uniquePRsReviewed
         (calculateStats sampleEnv samplePRs sampleReviews sampleRequests sampleComments ! 1)) * 100 \<and>
   eligiblePRsForReview (calculateStats sampleEnv [samplePRs ! 0] [] [] [] ! 0) = 0 \<and>
   reviewParticipationRate (calculateStats sampleEnv [samplePRs ! 0] [] [] [] ! 0) = 0"
proof -
  let ?out = "calculateStats sampleEnv samplePRs sampleReviews sampleRequests sampleComments"
  let ?solo = "calculateStats sampleEnv [samplePRs ! 0] [] [] []"
  have mem: "?out ! 1 \<in> set ?out" by (simp add: sample_result(1))
  have bobs: "length (filter (\<lambda>pr. author pr = ''bob'') samplePRs) = 1"
    by (simp add: samplePRs_def)
  from summary_derivation [OF sample_distinct(1) mem]
  have a: "eligiblePRsForReview (?out ! 1) = 1 \<and>
     reviewParticipationRate (?out ! 1) = of_nat (uniquePRsReviewed (?out ! 1)) * 100"
    by (simp add: sample_result(3) bobs sample_distinct(4) del: One_nat_def)
  have "length (map person ?solo) = 1" "map person ?solo ! 0 = ''alice''"
    by (simp_all only: solo_persons) simp_all
  then have len: "length ?solo = 1" and alice: "person (?solo ! 0) = ''alice''"
    by simp_all
  from len have mem': "?solo ! 0 \<in> set ?solo" by simp
  have d': "distinct (map number [samplePRs ! 0])" by simp
  have alices: "author (samplePRs ! 0) = ''alice''" by (simp add: samplePRs_def)
  from summary_derivation [OF d' mem']
  have b: "eligiblePRsForReview (?solo ! 0) = 0 \<and> reviewParticipationRate (?solo ! 0) = 0"
    by (simp add: alice alices)
  from a b show ?thesis by simp
qed

subsection \<open>Determinism\<close>

text \<open>
  Claim C7, as stated, fails: \<^verbatim>\<open>calculateStats\<close> reads \<^verbatim>\<open>Date.now()\<close>. On the sample
  input, a call whose clock reads 90000000 and a call, on the same input, whose clock
  reads 180000000 give the row of alice for the first PR, which is open, a different
  \<^verbatim>\<open>timeOpen\<close> (90000000 and 180000000) and a different \<^verbatim>\<open>ageInDays\<close> (1 and 2).
\<close>

theorem determinism_counterexample:
  "calculateStats sampleEnv samplePRs sampleReviews sampleRequests sampleComments \<noteq>
   calculateStats laterEnv samplePRs sampleReviews sampleRequests sampleComments \<and>
   timeOpen (prDetails
     (calculateStats sampleEnv samplePRs sampleReviews sampleRequests sampleComments ! 0) ! 0)
     = 90000000 \<and>
   timeOpen (prDetails
     (calculateStats laterEnv samplePRs sampleReviews sampleRequests sampleComments ! 0) ! 0)
     = 180000000 \<and>
   ageInDays (prDetails
     (calculateStats sampleEnv samplePRs sampleReviews sampleRequests sampleComments ! 0) ! 0)
     = 1 \<and>
   ageInDays (prDetails
     (calculateStats laterEnv samplePRs sampleReviews sampleRequests sampleComments ! 0) ! 0)
     = 2"
proof -
  let ?o = "calculateStats sampleEnv samplePRs sampleReviews sampleRequests sampleComments"
  let ?o' = "calculateStats laterEnv samplePRs sampleReviews sampleRequests sampleComments"
  have v: "timeOpen (prDetails (?o ! 0) ! 0) = 90000000"
    "timeOpen (prDetails (?o' ! 0) ! 0) = 180000000"
    "ageInDays (prDetails (?o ! 0) ! 0) = 1"
    "ageInDays (prDetails (?o' ! 0) ! 0) = 2"
    by code_simp+
  have "?o \<noteq> ?o'"
  proof
    assume "?o = ?o'"
    then have "timeOpen (prDetails (?o ! 0) ! 0) = timeOpen (prDetails (?o' ! 0) ! 0)"
      by simp
    with v(1,2) show False by simp
  qed
  with v show ?thesis by simp
qed

text \<open>
  Claim C7, amended. Two calls on the same input, whatever their clocks read, give the
  same persons in the same order and the same value in every field other than
  \<^verbatim>\<open>ageInDays\<close> and the \<^verbatim>\<open>timeOpen\<close> of the rows whose PR is neither merged nor closed.
\<close>

theorem determinism_up_to_clock:
  "map (eraseClock prs) (calculateStats (env\<lparr>now := c\<rparr>) prs reviews reviewRequests comments) =
   map (eraseClock prs) (calculateStats (env\<lparr>now := c'\<rparr>) prs reviews reviewRequests comments)
   \<and>
   map person (calculateStats (env\<lparr>now := c\<rparr>) prs reviews reviewRequests comments) =
   map person (calculateStats (env\<lparr>now := c'\<rparr>) prs reviews reviewRequests comments)"
proof -
  let ?m = "buildPersonMap prs reviews reviewRequests comments"
  let ?o = "calculateStats (env\<lparr>now := c\<rparr>) prs reviews reviewRequests comments"
  let ?o' = "calculateStats (env\<lparr>now := c'\<rparr>) prs reviews reviewRequests comments"
  have "map (eraseClock prs) ?o =
      sortBy (compareStats env) (map (eraseClock prs) (buildStats (env\<lparr>now := c\<rparr>) prs reviews ?m 0))"
    unfolding calculateStats_def compareStats_now
    by (rule map_sortBy) (rule compareStats_eraseClock)
  also have "\<dots> =
      sortBy (compareStats env) (map (eraseClock prs) (buildStats (env\<lparr>now := c'\<rparr>) prs reviews ?m 0))"
    by (simp only: eraseClock_buildStats [where prs = prs and env = env and c = c
          and R = reviews and m = ?m and n = 0 and c' = c' and n' = 0])
  also have "\<dots> = map (eraseClock prs) ?o'"
    unfolding calculateStats_def compareStats_now
    by (rule map_sortBy [symmetric]) (rule compareStats_eraseClock)
  finally have e: "map (eraseClock prs) ?o = map (eraseClock prs) ?o'" .
  have "map person ?o = map person (map (eraseClock prs) ?o)"
    by (simp add: person_eraseClock)
  also have "\<dots> = map person (map (eraseClock prs) ?o')"
    by (simp only: e)
  also have "\<dots> = map person ?o'"
    by (simp add: person_eraseClock)
  finally show ?thesis using e by simp
qed

subsection \<open>Zero-duration edge\<close>

text \<open>
  Claim C10. The three inputs being Maps, for a person of the result and a PR of the
  window: when the first-comment elapsed time computed for the pair is exactly 0, the
  value 0 is in the person's first-comment array, so that the person's
  \<^verbatim>\<open>timeToFirstComment\<close> is present with minimum 0, and yet \<^verbatim>\<open>firstCommentTime\<close> of the
  person's row for that PR is null. The same holds of the first-review elapsed time,
  the first-review array, \<^verbatim>\<open>timeToFirstReview\<close> and \<^verbatim>\<open>firstReviewTime\<close>.
\<close>

theorem zero_duration_edge:
  assumes "distinct (map fst reviews)" and "distinct (map fst comments)"
    and "ps \<in> set (calculateStats env prs reviews reviewRequests comments)"
    and "i < length prs"
  shows
   "(firstCommentElapsed (person ps) reviews reviewRequests comments (number (prs ! i)) = Some 0
       \<longrightarrow>
     0 \<in> set (acc_timeToFirstComment
                (accOf (buildPersonMap prs reviews reviewRequests comments) (person ps))) \<and>
     (\<exists>m. timeToFirstComment ps = Some m \<and> tm_min m = 0) \<and>
     firstCommentTime (prDetails ps ! i) = None) \<and>
    (firstReviewElapsed (person ps) reviews reviewRequests (number (prs ! i)) = Some 0
       \<longrightarrow>
     0 \<in> set (acc_timeToFirstReview
                (accOf (buildPersonMap prs reviews reviewRequests comments) (person ps))) \<and>
     (\<exists>m. timeToFirstReview ps = Some m \<and> tm_min m = 0) \<and>
     firstReviewTime (prDetails ps ! i) = None)"
proof -
  let ?p = "person ps"
  let ?d = "personView ?p prs reviews reviewRequests comments"
  let ?k = "number (prs ! i)"
  note mc = firstComment_times_iff [OF assms(1,2), of _ ?p prs reviewRequests]
  note mr = firstReview_times_iff(1) [OF assms(1,2), of _ ?p prs reviewRequests]
  note tm = calculateStats_times [OF assms(3)]
  note rw = calculateStats_row_times [OF assms]
  have a: "0 \<in> set (acc_timeToFirstComment ?d) \<and>
     (\<exists>m. timeToFirstComment ps = Some m \<and> tm_min m = 0) \<and>
     firstCommentTime (prDetails ps ! i) = None"
    if e: "firstCommentElapsed ?p reviews reviewRequests comments ?k = Some 0"
  proof -
    from e have z: "0 \<in> set (acc_timeToFirstComment ?d)"
      unfolding mc by auto
    have "\<forall>t \<in> set (acc_timeToFirstComment ?d). 0 \<le> t"
      by (auto simp: mc)
    from calculateTimeMetrics_zero [OF z this]
    have m: "\<exists>m. timeToFirstComment ps = Some m \<and> tm_min m = 0"
      by (simp only: tm(1))
    have "firstCommentTime (prDetails ps ! i) = None"
      by (simp add: rw(1) e)
    with z m show ?thesis by simp
  qed
  have b: "0 \<in> set (acc_timeToFirstReview ?d) \<and>
     (\<exists>m. timeToFirstReview ps = Some m \<and> tm_min m = 0) \<and>
     firstReviewTime (prDetails ps ! i) = None"
    if e: "firstReviewElapsed ?p reviews reviewRequests ?k = Some 0"
  proof -
    from e have z: "0 \<in> set (acc_timeToFirstReview ?d)"
      unfolding mr by auto
    have "\<forall>t \<in> set (acc_timeToFirstReview ?d). 0 \<le> t"
      by (auto simp: mr)
    from calculateTimeMetrics_zero [OF z this]
    have m: "\<exists>m. timeToFirstReview ps = Some m \<and> tm_min m = 0"
      by (simp only: tm(2))
    have "firstReviewTime (prDetails ps ! i) = None"
      by (simp add: rw(2) e)
    with z m show ?thesis by simp
  qed
  from a b show ?thesis
    by (simp only: accOf_buildPersonMap) blast
qed

theorem zero_duration_edge_witness:
  "firstReviewElapsed ''bob'' sampleReviews zeroRequests (number (samplePRs ! 0)) = Some 0 \<and>
   (\<exists>m. timeToFirstReview
          (calculateStats sampleEnv samplePRs sampleReviews zeroRequests sampleComments ! 1)
            = Some m \<and> tm_min m = 0) \<and>
   firstReviewTime (prDetails
     (calculateStats sampleEnv samplePRs sampleReviews zeroRequests sampleComments ! 1) ! 0)
     = None \<and>
   (\<exists>m. timeToFirstComment
          (calculateStats sampleEnv samplePRs sampleReviews zeroRequests sampleComments ! 1)
            = Some m \<and> tm_min m = 0) \<and>
   firstCommentTime (prDetails
     (calculateStats sampleEnv samplePRs sampleReviews zeroRequests sampleComments ! 1) ! 0)
     = None"
proof -
  let ?out = "calculateStats sampleEnv samplePRs sampleReviews zeroRequests sampleComments"
  have "length (map person ?out) = 2" "map person ?out ! 1 = ''bob''"
    by (simp_all only: zero_persons) simp_all
  then have len: "length ?out = 2" and bob: "person (?out ! 1) = ''bob''"
    by simp_all
  from len have mem: "?out ! 1 \<in> set ?out" by simp
  have i: "0 < length samplePRs" by (simp add: sample_distinct)
  from zero_duration_edge [OF sample_distinct(2,3) mem i] zero_bob_elapsed
  show ?thesis by (simp only: bob)
qed

subsection \<open>Negative-duration policy\<close>

text \<open>
  Claim C5. PR numbers being unique in the window and the three inputs being Maps, for
  a person of the result and a PR of the window: when the first-comment elapsed time
  computed for the pair is negative, it is in none of the person's three timing arrays
  and \<^verbatim>\<open>firstCommentTime\<close> of the person's row for the PR is null; likewise for the
  first-review elapsed time and \<^verbatim>\<open>firstReviewTime\<close>. No timing array ever holds a
  negative value. The row is there all the same, and its \<^verbatim>\<open>reviewStatus\<close> is what the
  person's authorship, reviews and comments make it, whatever the elapsed times are.
\<close>

theorem negative_durations_excluded:
  assumes "distinct (map number prs)"
    and "distinct (map fst reviews)" and "distinct (map fst comments)"
    and "ps \<in> set (calculateStats env prs reviews reviewRequests comments)"
    and "i < length prs"
  shows
   "(\<forall>t. firstCommentElapsed (person ps) reviews reviewRequests comments (number (prs ! i)) = Some t
          \<and> t < 0 \<longrightarrow>
      t \<notin> set (acc_timeToFirstComment
                 (accOf (buildPersonMap prs reviews reviewRequests comments) (person ps))) \<and>
      t \<notin> set (acc_timeToFirstReview
                 (accOf (buildPersonMap prs reviews reviewRequests comments) (person ps))) \<and>
      t \<notin> set (acc_timeToApproval
                 (accOf (buildPersonMap prs reviews reviewRequests comments) (person ps))) \<and>
      firstCommentTime (prDetails ps ! i) = None) \<and>
    (\<forall>t. firstReviewElapsed (person ps) reviews reviewRequests (number (prs ! i)) = Some t
          \<and> t < 0 \<longrightarrow>
      t \<notin> set (acc_timeToFirstComment
                 (accOf (buildPersonMap prs reviews reviewRequests comments) (person ps))) \<and>
      t \<notin> set (acc_timeToFirstReview
                 (accOf (buildPersonMap prs reviews reviewRequests comments) (person ps))) \<and>
      t \<notin> set (acc_timeToApproval
                 (accOf (buildPersonMap prs reviews reviewRequests comments) (person ps))) \<and>
      firstReviewTime (prDetails ps ! i) = None) \<and>
    (\<forall>t \<in> set (acc_timeToFirstComment
                 (accOf (buildPersonMap prs reviews reviewRequests comments) (person ps)))
          \<union> set (acc_timeToFirstReview
                 (accOf (buildPersonMap prs reviews reviewRequests comments) (person ps)))
          \<union> set (acc_timeToApproval
                 (accOf (buildPersonMap prs reviews reviewRequests comments) (person ps))).
       0 \<le> t) \<and>
    prNumber (prDetails ps ! i) = number (prs ! i) \<and>
    reviewStatus (prDetails ps ! i) =
      (if author (prs ! i) = person ps then OWN_PR
       else if reviewsOf (person ps) (getOrEmpty reviews (number (prs ! i))) \<noteq> []
         then Reviewed (r_state (latestReviewOf (person ps)
                                  (getOrEmpty reviews (number (prs ! i)))))
       else if commentsOf (person ps) (getOrEmpty comments (number (prs ! i))) \<noteq> []
         then COMMENTED_ONLY
       else NOT_REVIEWED)"
proof -
  let ?p = "person ps"
  let ?d = "personView ?p prs reviews reviewRequests comments"
  let ?k = "number (prs ! i)"
  note mc = firstComment_times_iff [OF assms(2,3), of _ ?p prs reviewRequests]
  note mr = firstReview_times_iff [OF assms(2,3), of _ ?p prs reviewRequests]
  note rw = calculateStats_row_times [OF assms(2,3,4,5)]
  have nn: "\<forall>t \<in> set (acc_timeToFirstComment ?d) \<union> set (acc_timeToFirstReview ?d)
                 \<union> set (acc_timeToApproval ?d). 0 \<le> t"
    by (auto simp: mc mr)
  have out: "t \<notin> set (acc_timeToFirstComment ?d) \<and> t \<notin> set (acc_timeToFirstReview ?d) \<and>
      t \<notin> set (acc_timeToApproval ?d)" if "t < 0" for t
    using that by (auto simp: mc mr)
  have a: "firstCommentTime (prDetails ps ! i) = None"
    if "firstCommentElapsed ?p reviews reviewRequests comments ?k = Some t" "t < 0" for t
    using that by (simp add: rw(1))
  have b: "firstReviewTime (prDetails ps ! i) = None"
    if "firstReviewElapsed ?p reviews reviewRequests ?k = Some t" "t < 0" for t
    using that by (simp add: rw(2))
  from calculateStats_row [OF assms(4,5)] obtain n where
    "prDetails ps ! i = fst (buildDetail env reviews ?d (prs ! i) n)" by blast
  then have num: "prNumber (prDetails ps ! i) = ?k"
    by (simp only: prNumber_buildDetail)
  note st = calculateStats_row_status [OF assms]
  from nn out a b num st show ?thesis
    by (simp only: accOf_buildPersonMap) blast
qed

theorem negative_durations_excluded_witness:
  "firstReviewElapsed ''bob'' sampleReviews lateRequests (number (samplePRs ! 0))
     = Some (- 300000) \<and>
   - 300000 \<notin> set (acc_timeToFirstReview
       (accOf (buildPersonMap samplePRs sampleReviews lateRequests sampleComments) ''bob'')) \<and>
   firstReviewTime (prDetails
     (calculateStats sampleEnv samplePRs sampleReviews lateRequests sampleComments ! 1) ! 0)
     = None \<and>
   firstCommentTime (prDetails
     (calculateStats sampleEnv samplePRs sampleReviews lateRequests sampleComments ! 1) ! 0)
     = None \<and>
   reviewStatus (prDetails
     (calculateStats sampleEnv samplePRs sampleReviews lateRequests sampleComments ! 1) ! 0)
     = Reviewed APPROVED"
proof -
  let ?out = "calculateStats sampleEnv samplePRs sampleReviews lateRequests sampleComments"
  have "length (map person ?out) = 2" "map person ?out ! 1 = ''bob''"
    by (simp_all only: late_persons) simp_all
  then have len: "length ?out = 2" and bob: "person (?out ! 1) = ''bob''"
    by simp_all
  from len have mem: "?out ! 1 \<in> set ?out" by simp
  have i: "0 < length samplePRs" by (simp add: sample_distinct)
  from negative_durations_excluded [OF sample_distinct(1,2,3) mem i]
    late_bob_elapsed sample_bob_review
  show ?thesis by (simp add: bob del: One_nat_def)
qed

subsection \<open>First-request-only timing origin\<close>

text \<open>
  Claim C3, as stated, fails: the origin is the timestamp of the first request record
  for the reviewer in the order of the array, whatever its timestamp. On the variant of
  the sample where bob's requests on the first PR are recorded as 5000, 0 (the earliest
  request is at 0) and bob's approval is at 7200000, the times computed for bob on that
  PR are 7195000, not 7200000.
\<close>

theorem first_request_counterexample:
  "map requestedAt (filter (\<lambda>q. q_reviewer q = ''bob'') (getOrEmpty unorderedRequests 1))
     = [5000, 0] \<and>
   map submittedAt (filter (\<lambda>r. reviewer r = ''bob'') (getOrEmpty sampleReviews 1)) = [7200000] \<and>
   prNumber (prDetails
     (calculateStats sampleEnv samplePRs sampleReviews unorderedRequests sampleComments ! 1) ! 0)
     = 1 \<and>
   person (calculateStats sampleEnv samplePRs sampleReviews unorderedRequests sampleComments ! 1)
     = ''bob'' \<and>
   firstReviewTime (prDetails
     (calculateStats sampleEnv samplePRs sampleReviews unorderedRequests sampleComments ! 1) ! 0)
     = Some 7195000 \<and>
   firstCommentTime (prDetails
     (calculateStats sampleEnv samplePRs sampleReviews unorderedRequests sampleComments ! 1) ! 0)
     = Some 7195000 \<and>
   map_option tm_min (timeToApproval
     (calculateStats sampleEnv samplePRs sampleReviews unorderedRequests sampleComments ! 1))
     = Some 7195000"
  by (simp only: unordered_result)

text \<open>
  Claim C3, amended. The three inputs being Maps, for a person \<open>p\<close> of the result: the
  request used for \<open>p\<close> on a PR is the first record for \<open>p\<close> in the PR's array of
  requests, which is the earliest one when the array is in chronological order; its
  timestamp is the origin of the elapsed times of \<open>p\<close> on the PR; the timing fields of
  the rows of \<open>p\<close> and the three timing arrays of \<open>p\<close> hold these elapsed times (the
  positive ones, the non-negative ones); and the records after the first one for a
  reviewer are never used: replacing the requests by others with the same first record
  for every PR and reviewer does not change the result.
\<close>

theorem first_request_record_origin:
  assumes "distinct (map fst reviews)" and "distinct (map fst comments)"
    and "ps \<in> set (calculateStats env prs reviews reviewRequests comments)"
    and "i < length prs"
  shows
   "(\<forall>k req. requestFor (person ps) (getOrEmpty reviewRequests k) = Some req \<longrightarrow>
       (\<exists>ys zs. getOrEmpty reviewRequests k = ys @ req # zs \<and> q_reviewer req = person ps \<and>
                (\<forall>q \<in> set ys. q_reviewer q \<noteq> person ps)) \<and>
       (sorted (map requestedAt (getOrEmpty reviewRequests k)) \<longrightarrow>
          (\<forall>q \<in> set (getOrEmpty reviewRequests k).
             q_reviewer q = person ps \<longrightarrow> requestedAt req \<le> requestedAt q)) \<and>
       firstReviewElapsed (person ps) reviews reviewRequests k =
         map_option (\<lambda>r. submittedAt r - requestedAt req)
           (firstFormalOf (person ps) (getOrEmpty reviews k)) \<and>
       (reviewsOf (person ps) (getOrEmpty reviews k) \<noteq> [] \<longrightarrow>
          firstCommentElapsed (person ps) reviews reviewRequests comments k =
            Some (firstInteraction (person ps) (getOrEmpty reviews k) (getOrEmpty comments k)
                    - requestedAt req)) \<and>
       (reviewsOf (person ps) (getOrEmpty reviews k) = [] \<and>
        commentsOf (person ps) (getOrEmpty comments k) \<noteq> [] \<longrightarrow>
          firstCommentElapsed (person ps) reviews reviewRequests comments k =
            Some (Min (set (map c_createdAt (commentsOf (person ps) (getOrEmpty comments k))))
                    - requestedAt req))) \<and>
    (\<forall>k. requestFor (person ps) (getOrEmpty reviewRequests k) = None \<longrightarrow>
       firstCommentElapsed (person ps) reviews reviewRequests comments k = None \<and>
       firstReviewElapsed (person ps) reviews reviewRequests k = None) \<and>
    firstCommentTime (prDetails ps ! i) =
      (case firstCommentElapsed (person ps) reviews reviewRequests comments (number (prs ! i)) of
         None \<Rightarrow> None | Some t \<Rightarrow> if 0 < t then Some t else None) \<and>
    firstReviewTime (prDetails ps ! i) =
      (case firstReviewElapsed (person ps) reviews reviewRequests (number (prs ! i)) of
         None \<Rightarrow> None | Some t \<Rightarrow> if 0 < t then Some t else None) \<and>
    (\<forall>t. t \<in> set (acc_timeToFirstComment
                   (accOf (buildPersonMap prs reviews reviewRequests comments) (person ps)))
          \<longleftrightarrow> 0 \<le> t \<and>
              (\<exists>k. firstCommentElapsed (person ps) reviews reviewRequests comments k = Some t)) \<and>
    (\<forall>t. t \<in> set (acc_timeToFirstReview
                   (accOf (buildPersonMap prs reviews reviewRequests comments) (person ps)))
          \<longleftrightarrow> 0 \<le> t \<and> (\<exists>k. firstReviewElapsed (person ps) reviews reviewRequests k = Some t)) \<and>
    (\<forall>t. t \<in> set (acc_timeToApproval
                   (accOf (buildPersonMap prs reviews reviewRequests comments) (person ps)))
          \<longleftrightarrow> 0 \<le> t \<and> (\<exists>k. firstReviewElapsed (person ps) reviews reviewRequests k = Some t)) \<and>
    timeToFirstComment ps = calculateTimeMetrics (acc_timeToFirstComment
       (accOf (buildPersonMap prs reviews reviewRequests comments) (person ps))) \<and>
    timeToFirstReview ps = calculateTimeMetrics (acc_timeToFirstReview
       (accOf (buildPersonMap prs reviews reviewRequests comments) (person ps))) \<and>
    timeToApproval ps = calculateTimeMetrics (acc_timeToApproval
       (accOf (buildPersonMap prs reviews reviewRequests comments) (person ps))) \<and>
    ((\<forall>k q. requestFor q (getOrEmpty otherRequests k) = requestFor q (getOrEmpty reviewRequests k))
       \<longrightarrow> calculateStats env prs reviews otherRequests comments
             = calculateStats env prs reviews reviewRequests comments)"
proof -
  let ?p = "person ps"
  let ?d = "personView ?p prs reviews reviewRequests comments"
  have c1: "(\<exists>ys zs. getOrEmpty reviewRequests k = ys @ req # zs \<and> q_reviewer req = ?p \<and>
                (\<forall>q \<in> set ys. q_reviewer q \<noteq> ?p)) \<and>
       (sorted (map requestedAt (getOrEmpty reviewRequests k)) \<longrightarrow>
          (\<forall>q \<in> set (getOrEmpty reviewRequests k).
             q_reviewer q = ?p \<longrightarrow> requestedAt req \<le> requestedAt q)) \<and>
       firstReviewElapsed ?p reviews reviewRequests k =
         map_option (\<lambda>r. submittedAt r - requestedAt req) (firstFormalOf ?p (getOrEmpty reviews k)) \<and>
       (reviewsOf ?p (getOrEmpty reviews k) \<noteq> [] \<longrightarrow>
          firstCommentElapsed ?p reviews reviewRequests comments k =
            Some (firstInteraction ?p (getOrEmpty reviews k) (getOrEmpty comments k)
                    - requestedAt req)) \<and>
       (reviewsOf ?p (getOrEmpty reviews k) = [] \<and> commentsOf ?p (getOrEmpty comments k) \<noteq> [] \<longrightarrow>
          firstCommentElapsed ?p reviews reviewRequests comments k =
            Some (Min (set (map c_createdAt (commentsOf ?p (getOrEmpty comments k))))
                    - requestedAt req))"
    if r: "requestFor ?p (getOrEmpty reviewRequests k) = Some req" for k req
    using requestFor_first [OF r] requestFor_earliest [OF r]
      elapsed_origin(2) [OF r, of reviews comments]
    by blast
  have c2: "firstCommentElapsed ?p reviews reviewRequests comments k = None \<and>
       firstReviewElapsed ?p reviews reviewRequests k = None"
    if "requestFor ?p (getOrEmpty reviewRequests k) = None" for k
    using that by (rule elapsed_origin(1))
  note c3 = calculateStats_row_times [OF assms]
  note c4 = firstComment_times_iff [OF assms(1,2), of _ ?p prs reviewRequests]
  note c5 = firstReview_times_iff [OF assms(1,2), of _ ?p prs reviewRequests]
  note c6 = calculateStats_times [OF assms(3)]
  have c7: "calculateStats env prs reviews otherRequests comments
             = calculateStats env prs reviews reviewRequests comments"
    if "\<forall>k q. requestFor q (getOrEmpty otherRequests k) = requestFor q (getOrEmpty reviewRequests k)"
    using that by (intro calculateStats_requests) simp
  show ?thesis
    unfolding accOf_buildPersonMap
    using c1 c2 c3 c4 c5 c6 c7 by (intro conjI allI impI) blast+
qed

theorem first_request_record_origin_witness:
  "calculateStats sampleEnv samplePRs sampleReviews repeatedRequests sampleComments =
     calculateStats sampleEnv samplePRs sampleReviews sampleRequests sampleComments \<and>
   firstReviewTime (prDetails
     (calculateStats sampleEnv samplePRs sampleReviews repeatedRequests sampleComments ! 1) ! 0)
     = Some 7200000"
proof -
  let ?out = "calculateStats sampleEnv samplePRs sampleReviews sampleRequests sampleComments"
  have mem: "?out ! 1 \<in> set ?out" by (simp add: sample_result(1))
  have i: "0 < length samplePRs" by (simp add: sample_distinct)
  note T = first_request_record_origin [OF sample_distinct(2,3) mem i,
      where otherRequests = repeatedRequests]
  from T repeated_same_first
  have same: "calculateStats sampleEnv samplePRs sampleReviews repeatedRequests sampleComments
      = ?out"
    by blast
  from T have "firstReviewTime (prDetails (?out ! 1) ! 0) =
      (case firstReviewElapsed (person (?out ! 1)) sampleReviews sampleRequests
              (number (samplePRs ! 0)) of
         None \<Rightarrow> None | Some t \<Rightarrow> if 0 < t then Some t else None)"
    by blast
  then have "firstReviewTime (prDetails (?out ! 1) ! 0) = Some 7200000"
    by (simp add: sample_result(3) sample_bob_elapsed del: One_nat_def)
  with same show ?thesis by simp
qed

end
